theory Spec2Isabelle
  imports Complex_Main "HOL-Library.Multiset"
begin

section \<open>Cluster load balancing optimizer: data model\<close>

text \<open>
  The program of \<^verbatim>\<open>main.cpp\<close> keeps its data in global arrays indexed by node id
  (\<^verbatim>\<open>nodes\<close>, \<^verbatim>\<open>adj_bandwidth\<close>, \<^verbatim>\<open>dist\<close>, \<^verbatim>\<open>next_hop\<close>) and in two vectors (\<^verbatim>\<open>tasks\<close>,
  \<^verbatim>\<open>logs\<close>). An array is modelled as a total function from indices; the globals are
  zero-initialised, so a cell that was never written reads 0. Indices are natural
  numbers (a negative index would leave the array), and the arrays are not bounded
  (the source declares them with \<^verbatim>\<open>MAXN = 55\<close> rows).

  A value of type \<^verbatim>\<open>int\<close> or \<^verbatim>\<open>long long\<close> is modelled as an integer, and every sum,
  difference and product of distances, costs, demands and usages that the source forms in
  \<^verbatim>\<open>int\<close> is cut to 32 bits, every one it forms in \<^verbatim>\<open>long long\<close> to 64 bits: the result
  is the two's complement value that the compiled program computes when the exact result
  does not fit (the C++ standard leaves signed overflow undefined). What is not cut are
  the counters that go up by one from 0 and stay below the number of tasks or of moves
  (the time, the path indices, the crossings counted per link) and the key
  \<^verbatim>\<open>u * 1000 + v\<close> of a link, whose node ids are array indices.
\<close>

definition int32 :: "int \<Rightarrow> int" where
  "int32 x = (x + 2147483648) mod 4294967296 - 2147483648"

definition int64 :: "int \<Rightarrow> int" where
  "int64 x = (x + 9223372036854775808) mod 18446744073709551616 - 9223372036854775808"

text \<open>The constant \<^verbatim>\<open>INF\<close> of the source (the name \<open>INF\<close> is taken by the infimum binder).\<close>

definition INF_val :: int where
  "INF_val = 1000000000"

record Node =
  node_id :: nat
  capacity :: int
  current_usage :: int

record Task =
  task_id :: int
  start_node :: nat
  demand :: int
  end_node :: nat
  migration_cost :: int
  path :: "nat list"
  path_idx :: nat
  current_pos_node :: nat
  finished :: bool

record LogEntry =
  log_time :: nat
  log_task_id :: int
  log_from :: nat
  log_to :: nat

type_synonym 'a matrix = "nat \<Rightarrow> nat \<Rightarrow> 'a"

text \<open>The assignment \<^verbatim>\<open>m[i][j] = x\<close> on a two-dimensional array.\<close>

definition upd2 :: "'a matrix \<Rightarrow> nat \<Rightarrow> nat \<Rightarrow> 'a \<Rightarrow> 'a matrix" where
  "upd2 m i j x = m(i := (m i)(j := x))"

section \<open>Initialisation and input\<close>

text \<open>
  \<^verbatim>\<open>init\<close> writes the cells with both indices in \<open>1..N\<close>: the distance is 0 on the
  diagonal and \<open>INF_val\<close> elsewhere, the bandwidth is 0 and the next hop of \<open>(i, j)\<close> is \<open>j\<close>.
  The other cells keep the zero of the global arrays.
\<close>

definition init_dist :: "nat \<Rightarrow> int matrix" where
  "init_dist n = (\<lambda>i j. if 1 \<le> i \<and> i \<le> n \<and> 1 \<le> j \<and> j \<le> n
                          then (if i = j then 0 else INF_val) else 0)"

definition init_adj_bandwidth :: "nat \<Rightarrow> int matrix" where
  "init_adj_bandwidth n = (\<lambda>i j. 0)"

definition init_next_hop :: "nat \<Rightarrow> nat matrix" where
  "init_next_hop n = (\<lambda>i j. if 1 \<le> i \<and> i \<le> n \<and> 1 \<le> j \<and> j \<le> n then j else 0)"

text \<open>An input line of a link: the two end points, the cost and the bandwidth.\<close>

type_synonym link = "nat \<times> nat \<times> int \<times> int"

text \<open>
  One link of \<^verbatim>\<open>readInput\<close>: the bandwidth is overwritten in both directions, the
  distance only when the cost is below the distance recorded so far.
\<close>

definition read_link :: "link \<Rightarrow> int matrix \<times> int matrix \<Rightarrow> int matrix \<times> int matrix" where
  "read_link = (\<lambda>(u, v, c, b) (adj, d).
     (upd2 (upd2 adj v u b) u v b,
      if c < d u v then upd2 (upd2 d u v c) v u c else d))"

definition read_links :: "nat \<Rightarrow> link list \<Rightarrow> int matrix \<times> int matrix" where
  "read_links n links = fold read_link links (init_adj_bandwidth n, init_dist n)"

definition input_bandwidth :: "nat \<Rightarrow> link list \<Rightarrow> int matrix" where
  "input_bandwidth n links = fst (read_links n links)"

definition input_dist :: "nat \<Rightarrow> link list \<Rightarrow> int matrix" where
  "input_dist n links = snd (read_links n links)"

text \<open>An input line of a node: its id and its capacity.\<close>

definition read_node :: "nat \<times> int \<Rightarrow> (nat \<Rightarrow> Node) \<Rightarrow> (nat \<Rightarrow> Node)" where
  "read_node = (\<lambda>(i, cap) nodes.
     nodes(i := \<lparr>node_id = i, capacity = cap, current_usage = 0\<rparr>))"

definition zero_nodes :: "nat \<Rightarrow> Node" where
  "zero_nodes = (\<lambda>i. \<lparr>node_id = 0, capacity = 0, current_usage = 0\<rparr>)"

definition read_nodes :: "(nat \<times> int) list \<Rightarrow> (nat \<Rightarrow> Node)" where
  "read_nodes lines = fold read_node lines zero_nodes"

text \<open>
  An input line of a task: its id, its start node and its demand. The task is created
  assigned to its start node, with migration cost 0 and an empty path.
\<close>

definition read_task :: "int \<times> nat \<times> int \<Rightarrow> Task" where
  "read_task = (\<lambda>(tid, s_node, dem).
     \<lparr>task_id = tid, start_node = s_node, demand = dem, end_node = s_node,
      migration_cost = 0, path = [], path_idx = 0, current_pos_node = s_node,
      finished = False\<rparr>)"

definition read_tasks :: "(int \<times> nat \<times> int) list \<Rightarrow> Task list" where
  "read_tasks lines = map read_task lines"

section \<open>Floyd-Warshall\<close>

text \<open>
  The body of the triple loop, on the pair of the distance matrix and the routing table.
\<close>

definition relax :: "nat \<Rightarrow> nat \<Rightarrow> nat \<Rightarrow> int matrix \<times> nat matrix \<Rightarrow> int matrix \<times> nat matrix" where
  "relax k i j = (\<lambda>(d, nh).
     if d i k \<noteq> INF_val \<and> d k j \<noteq> INF_val then
       if int32 (d i k + d k j) < d i j
       then (upd2 d i j (int32 (d i k + d k j)), upd2 nh i j (nh i k))
       else (d, nh)
     else (d, nh))"

definition fw_row :: "nat \<Rightarrow> nat \<Rightarrow> nat \<Rightarrow> int matrix \<times> nat matrix \<Rightarrow> int matrix \<times> nat matrix" where
  "fw_row n k i = fold (relax k i) [1..<Suc n]"

definition fw_pivot :: "nat \<Rightarrow> nat \<Rightarrow> int matrix \<times> nat matrix \<Rightarrow> int matrix \<times> nat matrix" where
  "fw_pivot n k = fold (fw_row n k) [1..<Suc n]"

definition floydWarshall :: "nat \<Rightarrow> int matrix \<times> nat matrix \<Rightarrow> int matrix \<times> nat matrix" where
  "floydWarshall n = fold (fw_pivot n) [1..<Suc n]"

text \<open>The tables the program holds after \<^verbatim>\<open>readInput\<close> and \<^verbatim>\<open>floydWarshall\<close>.\<close>

definition routing :: "nat \<Rightarrow> link list \<Rightarrow> int matrix \<times> nat matrix" where
  "routing n links = floydWarshall n (input_dist n links, init_next_hop n)"

section \<open>Path reconstruction\<close>

text \<open>
  The loop of \<^verbatim>\<open>reconstructPath\<close> appends to the path the task already has. It runs
  until the current node is the end node, so on a routing table with a cycle it does
  not return: the result is \<open>None\<close> then.
\<close>

partial_function (option) follow_hops ::
  "nat matrix \<Rightarrow> nat \<Rightarrow> nat \<Rightarrow> nat list \<Rightarrow> nat list option" where
  "follow_hops nh e cur p =
     (if cur = e then Some p
      else follow_hops nh e (nh cur e) (p @ [nh cur e]))"

definition reconstructPath :: "nat matrix \<Rightarrow> Task \<Rightarrow> Task option" where
  "reconstructPath nh t =
     (if start_node t = end_node t then Some t
      else map_option (\<lambda>p. t\<lparr>path := p\<rparr>)
             (follow_hops nh (end_node t) (start_node t) (path t)))"


section \<open>Greedy allocation\<close>

text \<open>
  The scan over the targets \<open>1..N\<close> for one task. The source holds the best node in an
  \<^verbatim>\<open>int\<close> with \<open>-1\<close> for "none yet"; the model holds it in an option, and the cost
  beside it starts at \<open>-1\<close> as in the source.
\<close>

definition scan_step ::
  "int matrix \<Rightarrow> (nat \<Rightarrow> Node) \<Rightarrow> Task \<Rightarrow> nat \<Rightarrow> nat option \<times> int \<Rightarrow> nat option \<times> int" where
  "scan_step dist_t nodes t target = (\<lambda>(best_node, min_cost).
     if dist_t (start_node t) target = INF_val then (best_node, min_cost)
     else if int32 (current_usage (nodes target) + demand t) \<le> capacity (nodes target) then
       (let cost = int32 (dist_t (start_node t) target * demand t) in
        if best_node = None \<or> cost < min_cost then (Some target, cost)
        else (best_node, min_cost))
     else (best_node, min_cost))"

definition find_best ::
  "nat \<Rightarrow> int matrix \<Rightarrow> (nat \<Rightarrow> Node) \<Rightarrow> Task \<Rightarrow> nat option \<times> int" where
  "find_best n dist_t nodes t = fold (scan_step dist_t nodes t) [1..<Suc n] (None, - 1)"

text \<open>
  \<^verbatim>\<open>nodes[i].current_usage += x\<close>; the source's \<^verbatim>\<open>-= x\<close> is \<open>add_usage i (- x)\<close>, which
  is the same value after the cut to 32 bits.
\<close>

definition add_usage :: "nat \<Rightarrow> int \<Rightarrow> (nat \<Rightarrow> Node) \<Rightarrow> (nat \<Rightarrow> Node)" where
  "add_usage i x nodes =
     nodes(i := (nodes i)\<lparr>current_usage := int32 (current_usage (nodes i) + x)\<rparr>)"

definition place_task ::
  "nat \<Rightarrow> int matrix \<Rightarrow> nat \<Rightarrow> (nat \<Rightarrow> Node) \<times> Task list \<Rightarrow> (nat \<Rightarrow> Node) \<times> Task list" where
  "place_task n dist_t idx = (\<lambda>(nodes, tasks).
     let t = tasks ! idx in
     case find_best n dist_t nodes t of
       (Some best_node, min_cost) \<Rightarrow>
         (add_usage best_node (demand t) nodes,
          tasks[idx := t\<lparr>end_node := best_node, migration_cost := min_cost\<rparr>])
     | (None, min_cost) \<Rightarrow> (nodes, tasks))"

definition reset_usage :: "nat \<Rightarrow> (nat \<Rightarrow> Node) \<Rightarrow> (nat \<Rightarrow> Node)" where
  "reset_usage n nodes = (\<lambda>i. if 1 \<le> i \<and> i \<le> n then (nodes i)\<lparr>current_usage := 0\<rparr> else nodes i)"

text \<open>
  The planner sorts the indices \<open>0..T-1\<close> with \<^verbatim>\<open>std::sort\<close> and the comparator
  \<^verbatim>\<open>tasks[a].demand > tasks[b].demand\<close>. The comparator and the call are the program's;
  \<^verbatim>\<open>std::sort\<close> is library code, so it is an argument \<open>sort_fn\<close> of the model. What the
  library promises of it is \<open>sort_contract\<close>: the result is a rearrangement of the input
  in which no element comes before one that the comparator puts strictly first (the sort
  is not stable, so the order of equal elements is not fixed).
\<close>

type_synonym sorter = "(nat \<Rightarrow> nat \<Rightarrow> bool) \<Rightarrow> nat list \<Rightarrow> nat list"

definition demand_greater :: "Task list \<Rightarrow> nat \<Rightarrow> nat \<Rightarrow> bool" where
  "demand_greater tasks a b \<longleftrightarrow> demand (tasks ! a) > demand (tasks ! b)"

definition sorted_indices :: "sorter \<Rightarrow> Task list \<Rightarrow> nat list" where
  "sorted_indices sort_fn tasks = sort_fn (demand_greater tasks) [0..<length tasks]"

definition sort_contract :: "(nat \<Rightarrow> nat \<Rightarrow> bool) \<Rightarrow> nat list \<Rightarrow> nat list \<Rightarrow> bool" where
  "sort_contract lt xs ys \<longleftrightarrow> mset ys = mset xs \<and> sorted_wrt (\<lambda>x y. \<not> lt y x) ys"

definition solveAllocationGreedy ::
  "nat \<Rightarrow> int matrix \<Rightarrow> sorter \<Rightarrow> (nat \<Rightarrow> Node) \<times> Task list \<Rightarrow> (nat \<Rightarrow> Node) \<times> Task list" where
  "solveAllocationGreedy n dist_t sort_fn = (\<lambda>(nodes, tasks).
     fold (place_task n dist_t) (sorted_indices sort_fn tasks) (reset_usage n nodes, tasks))"

section \<open>Simulated annealing\<close>

text \<open>
  The loop of \<^verbatim>\<open>optimizeAllocationSA\<close> leaves only through the clock test, and its
  random numbers come from \<^verbatim>\<open>rand()\<close> seeded with \<^verbatim>\<open>time(NULL)\<close>. Neither the clock nor
  the generator is part of the program, so the model takes what they delivered as an
  argument: one \<open>draw\<close> per iteration that ran. A draw holds the value of the first
  \<^verbatim>\<open>rand()\<close> (for the task), of the second (for the node) and the outcome of the test
  \<^verbatim>\<open>exp(-cost_diff / current_temp) > (double)rand() / RAND_MAX\<close>, which the source
  evaluates in floating point and only when \<^verbatim>\<open>cost_diff < 0\<close> is false. The temperature
  is a real number (the rounding of \<^verbatim>\<open>double\<close> is not modelled); no other part of the
  state depends on it.
\<close>

type_synonym draw = "nat \<times> nat \<times> bool"

record sa_state =
  sa_nodes :: "nat \<Rightarrow> Node"
  sa_tasks :: "Task list"
  current_temp :: real
  current_cost :: int
  best_cost :: int
  best_assignment :: "nat list"

definition T_start :: real where
  "T_start = 2000"

definition T_end :: real where
  "T_end = 1 / 100000000"

definition cooling_rate :: real where
  "cooling_rate = 999 / 1000"

definition calculateTotalCost :: "int matrix \<Rightarrow> Task list \<Rightarrow> int" where
  "calculateTotalCost dist_t tasks =
     fold (\<lambda>t total. int64 (total + int64 (dist_t (start_node t) (end_node t) * demand t)))
       tasks 0"

definition sa_init :: "int matrix \<Rightarrow> (nat \<Rightarrow> Node) \<Rightarrow> Task list \<Rightarrow> sa_state" where
  "sa_init dist_t nodes tasks =
     \<lparr>sa_nodes = nodes, sa_tasks = tasks, current_temp = T_start,
      current_cost = calculateTotalCost dist_t tasks,
      best_cost = calculateTotalCost dist_t tasks,
      best_assignment = map end_node tasks\<rparr>"

text \<open>The end of the loop body: cool, and reheat below the floor.\<close>

definition cool :: "sa_state \<Rightarrow> sa_state" where
  "cool s =
     (let temp = current_temp s * cooling_rate
      in s\<lparr>current_temp := (if temp < T_end then T_start * (1 / 2) else temp)\<rparr>)"

text \<open>The accepted move of task \<open>t_idx\<close> to \<open>new_node\<close>.\<close>

definition sa_move :: "int matrix \<Rightarrow> nat \<Rightarrow> nat \<Rightarrow> int \<Rightarrow> sa_state \<Rightarrow> sa_state" where
  "sa_move dist_t t_idx new_node cost_diff s =
     (let t = sa_tasks s ! t_idx;
          old_node = end_node t;
          nodes' = add_usage new_node (demand t) (add_usage old_node (- demand t) (sa_nodes s));
          tasks' = (sa_tasks s)[t_idx := t\<lparr>end_node := new_node,
                      migration_cost := int32 (dist_t (start_node t) new_node * demand t)\<rparr>];
          cost' = int64 (current_cost s + cost_diff);
          s' = s\<lparr>sa_nodes := nodes', sa_tasks := tasks', current_cost := cost'\<rparr>
      in if cost' < best_cost s
         then s'\<lparr>best_cost := cost', best_assignment := map end_node tasks'\<rparr>
         else s')"

text \<open>
  One iteration. The \<^verbatim>\<open>continue\<close> of the source (same node, or unreachable) leaves the
  state as it is; every other path ends in \<open>cool\<close>.
\<close>

definition sa_iteration :: "nat \<Rightarrow> int matrix \<Rightarrow> draw \<Rightarrow> sa_state \<Rightarrow> sa_state" where
  "sa_iteration n dist_t = (\<lambda>(r1, r2, metropolis) s.
     let t_idx = r1 mod length (sa_tasks s);
         t = sa_tasks s ! t_idx;
         old_node = end_node t;
         new_node = r2 mod n + 1
     in if new_node = old_node \<or> dist_t (start_node t) new_node = INF_val then s
        else cool
          (if int32 (current_usage (sa_nodes s new_node) + demand t)
                \<le> capacity (sa_nodes s new_node)
           then
             (let cost_diff = int64 (int64 (dist_t (start_node t) new_node * demand t)
                                   - int64 (dist_t (start_node t) old_node * demand t))
              in if cost_diff < 0 \<or> metropolis then sa_move dist_t t_idx new_node cost_diff s
                 else s)
           else s))"

definition sa_loop :: "nat \<Rightarrow> int matrix \<Rightarrow> draw list \<Rightarrow> sa_state \<Rightarrow> sa_state" where
  "sa_loop n dist_t draws s = fold (sa_iteration n dist_t) draws s"

text \<open>The write-back of the best assignment after the loop.\<close>

definition restore_task ::
  "int matrix \<Rightarrow> nat list \<Rightarrow> nat \<Rightarrow> (nat \<Rightarrow> Node) \<times> Task list \<Rightarrow> (nat \<Rightarrow> Node) \<times> Task list" where
  "restore_task dist_t best i = (\<lambda>(nodes, tasks).
     let t = (tasks ! i)\<lparr>end_node := best ! i\<rparr>;
         t' = t\<lparr>migration_cost := int32 (dist_t (start_node t) (end_node t) * demand t)\<rparr>
     in (add_usage (end_node t') (demand t') nodes, tasks[i := t']))"

definition restore :: "nat \<Rightarrow> int matrix \<Rightarrow> sa_state \<Rightarrow> (nat \<Rightarrow> Node) \<times> Task list" where
  "restore n dist_t s =
     fold (restore_task dist_t (best_assignment s)) [0..<length (sa_tasks s)]
       (reset_usage n (sa_nodes s), sa_tasks s)"

text \<open>
  \<^verbatim>\<open>rand() % T\<close> and \<^verbatim>\<open>rand() % N\<close> divide by zero when there is no task or no node: an
  iteration cannot run then, and the result is \<open>None\<close>.
\<close>

definition optimizeAllocationSA ::
  "nat \<Rightarrow> int matrix \<Rightarrow> draw list \<Rightarrow> (nat \<Rightarrow> Node) \<times> Task list
     \<Rightarrow> ((nat \<Rightarrow> Node) \<times> Task list) option" where
  "optimizeAllocationSA n dist_t draws = (\<lambda>(nodes, tasks).
     if draws \<noteq> [] \<and> (length tasks = 0 \<or> n = 0) then None
     else Some (restore n dist_t (sa_loop n dist_t draws (sa_init dist_t nodes tasks))))"

section \<open>Migration simulation\<close>

definition prepare_task :: "nat matrix \<Rightarrow> Task \<Rightarrow> Task option" where
  "prepare_task nh t =
     (if start_node t \<noteq> end_node t
      then map_option
             (\<lambda>t'. t'\<lparr>path_idx := 0, current_pos_node := start_node t', finished := False\<rparr>)
             (reconstructPath nh t)
      else Some (t\<lparr>finished := True\<rparr>))"

fun prepare_tasks :: "nat matrix \<Rightarrow> Task list \<Rightarrow> Task list option" where
  "prepare_tasks nh [] = Some []"
| "prepare_tasks nh (t # ts) =
     (case prepare_task nh t of
        None \<Rightarrow> None
      | Some t' \<Rightarrow> map_option ((#) t') (prepare_tasks nh ts))"

definition link_key :: "nat \<Rightarrow> nat \<Rightarrow> nat" where
  "link_key u v = (if u < v then u * 1000 + v else v * 1000 + u)"

text \<open>
  The first pass of a time step over task \<open>i\<close>: \<open>link_usage\<close> is the \<^verbatim>\<open>std::map\<close> of the
  step, whose absent keys read 0.
\<close>

definition try_move ::
  "int matrix \<Rightarrow> Task list \<Rightarrow> nat \<Rightarrow> (nat \<Rightarrow> int) \<times> nat list \<Rightarrow> (nat \<Rightarrow> int) \<times> nat list" where
  "try_move adj tasks i = (\<lambda>(link_usage, tasks_moved_indices).
     if finished (tasks ! i) then (link_usage, tasks_moved_indices)
     else
       (let t = tasks ! i;
            u = current_pos_node t;
            v = path t ! path_idx t;
            key = link_key u v;
            bw = adj u v
        in if link_usage key < bw
           then (link_usage(key := link_usage key + 1), tasks_moved_indices @ [i])
           else (link_usage, tasks_moved_indices)))"

definition select_moves :: "int matrix \<Rightarrow> Task list \<Rightarrow> nat list" where
  "select_moves adj tasks =
     snd (fold (try_move adj tasks) [0..<length tasks] (\<lambda>key. 0, []))"

text \<open>The second pass: the move of task \<open>idx\<close>, with its log entry.\<close>

definition move_task :: "nat \<Rightarrow> nat \<Rightarrow> Task list \<times> LogEntry list \<Rightarrow> Task list \<times> LogEntry list" where
  "move_task current_time idx = (\<lambda>(tasks, logs).
     let t = tasks ! idx;
         from = current_pos_node t;
         to = path t ! path_idx t;
         t1 = t\<lparr>current_pos_node := to, path_idx := path_idx t + 1\<rparr>;
         t2 = (if path_idx t1 \<ge> length (path t1) then t1\<lparr>finished := True\<rparr> else t1)
     in (tasks[idx := t2],
         logs @ [\<lparr>log_time = current_time, log_task_id = task_id t, log_from = from,
                  log_to = to\<rparr>]))"

text \<open>
  The loop over the time steps, on the time, the tasks and the log. It is defined as
  a function that may not return; that it always returns is a theorem below.
\<close>

partial_function (option) sim_loop ::
  "int matrix \<Rightarrow> nat \<times> Task list \<times> LogEntry list \<Rightarrow> (nat \<times> Task list \<times> LogEntry list) option" where
  "sim_loop adj st =
     (case st of (current_time, tasks, logs) \<Rightarrow>
        if \<forall>t\<in>set tasks. finished t then Some (current_time, tasks, logs)
        else
          (let moved = select_moves adj tasks in
           if moved = [] then Some (current_time + 1, tasks, logs)
           else sim_loop adj
                  (current_time + 1, fold (move_task (current_time + 1)) moved (tasks, logs))))"

text \<open>
  \<^verbatim>\<open>simulateMigration\<close>: the result is the value of \<^verbatim>\<open>total_time_steps\<close>, the tasks and
  the log.
\<close>

definition simulateMigration ::
  "nat matrix \<Rightarrow> int matrix \<Rightarrow> Task list \<Rightarrow> (nat \<times> Task list \<times> LogEntry list) option" where
  "simulateMigration nh adj tasks =
     (case prepare_tasks nh tasks of
        None \<Rightarrow> None
      | Some ts \<Rightarrow> sim_loop adj (0, ts, []))"


section \<open>The program\<close>

text \<open>
  \<^verbatim>\<open>main\<close>: read the input, build the routing tables, plan, optimize and simulate. The
  result holds what \<^verbatim>\<open>printOutput\<close> prints from: the nodes, the tasks, the number of time
  steps and the log. The library sort and the draws of the optimizer are arguments, as
  above.
\<close>

definition main_program ::
  "nat \<Rightarrow> (nat \<times> int) list \<Rightarrow> link list \<Rightarrow> (int \<times> nat \<times> int) list \<Rightarrow> sorter \<Rightarrow> draw list
     \<Rightarrow> ((nat \<Rightarrow> Node) \<times> nat \<times> Task list \<times> LogEntry list) option" where
  "main_program n node_lines link_lines task_lines sort_fn draws =
     (let dist_t = fst (routing n link_lines);
          planned = solveAllocationGreedy n dist_t sort_fn
                      (read_nodes node_lines, read_tasks task_lines)
      in case optimizeAllocationSA n dist_t draws planned of
           None \<Rightarrow> None
         | Some (nodes, tasks) \<Rightarrow>
             (case simulateMigration (snd (routing n link_lines))
                     (input_bandwidth n link_lines) tasks of
                None \<Rightarrow> None
              | Some (total_time_steps, tasks', logs) \<Rightarrow>
                  Some (nodes, total_time_steps, tasks', logs)))"

section \<open>Notions used in the statements and proofs\<close>

text \<open>The values of a 32-bit \<^verbatim>\<open>int\<close>.\<close>

definition fits32 :: "int \<Rightarrow> bool" where
  "fits32 x \<longleftrightarrow> - 2147483648 \<le> x \<and> x \<le> 2147483647"

subsection \<open>Links, hops and path costs\<close>

text \<open>
  The costs of the input links between \<open>a\<close> and \<open>b\<close>, in either direction. The pair is
  linked when the list is not empty, and the cost of the link is the least of them (the
  source keeps the minimum over repeated input lines).
\<close>

definition link_costs :: "link list \<Rightarrow> nat \<Rightarrow> nat \<Rightarrow> int list" where
  "link_costs links a b =
     map (\<lambda>(u, v, c, bw). c)
       (filter (\<lambda>(u, v, c, bw). (u = a \<and> v = b) \<or> (u = b \<and> v = a)) links)"

definition link_cost :: "link list \<Rightarrow> nat \<Rightarrow> nat \<Rightarrow> int" where
  "link_cost links a b = Min (set (link_costs links a b))"

text \<open>The cost of walking from \<open>c\<close> along the nodes of a path, under a cost per hop.\<close>

fun path_cost :: "int matrix \<Rightarrow> nat \<Rightarrow> nat list \<Rightarrow> int" where
  "path_cost w c [] = 0"
| "path_cost w c (x # xs) = w c x + path_cost w x xs"

text \<open>Every hop of the path from \<open>c\<close> is a link of the input.\<close>

fun hops_linked :: "link list \<Rightarrow> nat \<Rightarrow> nat list \<Rightarrow> bool" where
  "hops_linked links c [] = True"
| "hops_linked links c (x # xs) = (link_costs links c x \<noteq> [] \<and> hops_linked links x xs)"

subsection \<open>One pivot of Floyd-Warshall, all pairs at once\<close>

definition improves :: "nat \<Rightarrow> int matrix \<Rightarrow> nat \<Rightarrow> nat \<Rightarrow> bool" where
  "improves k d i j \<longleftrightarrow>
     d i k \<noteq> INF_val \<and> d k j \<noteq> INF_val \<and> int32 (d i k + d k j) < d i j"

text \<open>
  The tables after the pairs of \<open>S\<close> were relaxed through \<open>k\<close>, each from the tables
  before the pivot.
\<close>

definition pivot_on ::
  "(nat \<times> nat) set \<Rightarrow> nat \<Rightarrow> int matrix \<times> nat matrix \<Rightarrow> int matrix \<times> nat matrix" where
  "pivot_on S k = (\<lambda>(d, nh).
     (\<lambda>i j. if (i, j) \<in> S \<and> improves k d i j then int32 (d i k + d k j) else d i j,
      \<lambda>i j. if (i, j) \<in> S \<and> improves k d i j then nh i k else nh i j))"

subsection \<open>Invariants of Floyd-Warshall\<close>

text \<open>
  \<open>w\<close> is the distance matrix of the input. The distances stay between 0 and \<open>INF_val\<close>
  and below \<open>w\<close>, with a zero diagonal; the triangle inequality holds through the pivots
  done so far; and the next hop of a reachable pair is a neighbour that is nearer to
  the target by the cost of the link, or as near and of lower rank \<open>R\<close> (the rank
  orders the nodes along links of cost 0).
\<close>

definition dist_ok :: "nat \<Rightarrow> int matrix \<Rightarrow> int matrix \<Rightarrow> bool" where
  "dist_ok n w d \<longleftrightarrow>
     (\<forall>i\<in>{1..n}. \<forall>j\<in>{1..n}. 0 \<le> d i j \<and> d i j \<le> INF_val \<and> d i j \<le> w i j) \<and>
     (\<forall>i\<in>{1..n}. d i i = 0)"

definition tri_ok :: "nat \<Rightarrow> nat \<Rightarrow> int matrix \<Rightarrow> bool" where
  "tri_ok n k d \<longleftrightarrow> (\<forall>i\<in>{1..n}. \<forall>j\<in>{1..n}. \<forall>l\<in>{1..k}. d i j \<le> d i l + d l j)"

definition hop_ok :: "nat \<Rightarrow> int matrix \<Rightarrow> nat matrix \<Rightarrow> int matrix \<times> nat matrix \<Rightarrow> bool" where
  "hop_ok n w R = (\<lambda>(d, nh). \<forall>i\<in>{1..n}. \<forall>j\<in>{1..n}. i \<noteq> j \<and> d i j < INF_val \<longrightarrow>
     nh i j \<in> {1..n} \<and> nh i j \<noteq> i \<and> w i (nh i j) < INF_val \<and>
     w i (nh i j) + d (nh i j) j \<le> d i j \<and>
     (d (nh i j) j = d i j \<longrightarrow> R (nh i j) j < R i j))"

subsection \<open>The planner in the words of its description\<close>






text \<open>
  The scan of a task forms no sum and no product that leaves the 32-bit \<^verbatim>\<open>int\<close>: for
  every reachable target the sum of its usage and the demand fits, and where that sum
  passes the capacity test the product of the distance and the demand fits.
\<close>

definition step_exact :: "nat \<Rightarrow> int matrix \<Rightarrow> (nat \<Rightarrow> Node) \<Rightarrow> Task \<Rightarrow> bool" where
  "step_exact n dist_t nodes t \<longleftrightarrow>
     (\<forall>target\<in>set [1..<Suc n]. dist_t (start_node t) target \<noteq> INF_val \<longrightarrow>
        fits32 (current_usage (nodes target) + demand t) \<and>
        (current_usage (nodes target) + demand t \<le> capacity (nodes target) \<longrightarrow>
           fits32 (dist_t (start_node t) target * demand t)))"

text \<open>The same of every scan of a run of the planner over the tasks of \<open>order\<close>.\<close>

fun scan_exact :: "nat \<Rightarrow> int matrix \<Rightarrow> nat list \<Rightarrow> (nat \<Rightarrow> Node) \<times> Task list \<Rightarrow> bool" where
  "scan_exact n dist_t [] st = True"
| "scan_exact n dist_t (idx # order) st =
     (step_exact n dist_t (fst st) (snd st ! idx) \<and>
      scan_exact n dist_t order (place_task n dist_t idx st))"

text \<open>
  A condition on the input under which this is so: the demands are not negative, and for
  every task and every node of \<open>1..N\<close> the capacity plus the demand, and the cost of the
  target when it is reachable, fit in 32 bits.
\<close>

definition scan_fits :: "nat \<Rightarrow> int matrix \<Rightarrow> (nat \<Rightarrow> Node) \<Rightarrow> Task list \<Rightarrow> bool" where
  "scan_fits n dist_t nodes tasks \<longleftrightarrow>
     (\<forall>t\<in>set tasks. 0 \<le> demand t \<and> fits32 (demand t) \<and>
        (\<forall>i\<in>{1..n}. fits32 (capacity (nodes i) + demand t) \<and>
           (dist_t (start_node t) i \<noteq> INF_val \<longrightarrow> fits32 (dist_t (start_node t) i * demand t))))"

text \<open>The two tests of the scan, as the program evaluates them.\<close>

definition passed :: "int matrix \<Rightarrow> (nat \<Rightarrow> Node) \<Rightarrow> Task \<Rightarrow> nat \<Rightarrow> bool" where
  "passed dist_t nodes t b \<longleftrightarrow>
     dist_t (start_node t) b \<noteq> INF_val \<and>
     int32 (current_usage (nodes b) + demand t) \<le> capacity (nodes b)"

text \<open>
  The usage of every node of \<open>1..N\<close> lies between 0 and its capacity, or is 0 when the
  capacity is negative.
\<close>

definition usage_low :: "nat \<Rightarrow> (nat \<Rightarrow> Node) \<Rightarrow> bool" where
  "usage_low n nodes \<longleftrightarrow>
     (\<forall>i\<in>{1..n}. 0 \<le> current_usage (nodes i) \<and>
                  current_usage (nodes i) \<le> max 0 (capacity (nodes i)))"


subsection \<open>Loads and assignments\<close>

text \<open>The sum of the demands of the tasks assigned to node \<open>i\<close>.\<close>

definition load :: "Task list \<Rightarrow> nat \<Rightarrow> int" where
  "load tasks i = (\<Sum>t\<leftarrow>tasks. if end_node t = i then demand t else 0)"

text \<open>The tasks with the end nodes of an assignment written back, as the optimizer does last.\<close>

definition written_back :: "int matrix \<Rightarrow> nat list \<Rightarrow> Task list \<Rightarrow> Task list" where
  "written_back dist_t best tasks =
     map (\<lambda>(t, e). t\<lparr>end_node := e,
                    migration_cost := int32 (dist_t (start_node t) e * demand t)\<rparr>)
       (zip tasks best)"

text \<open>The indices, in processing order, of the tasks for which the planner found no node.\<close>

fun unplaced ::
  "nat \<Rightarrow> int matrix \<Rightarrow> nat list \<Rightarrow> (nat \<Rightarrow> Node) \<times> Task list \<Rightarrow> nat list" where
  "unplaced n dist_t [] st = []"
| "unplaced n dist_t (idx # order) st =
     (if fst (find_best n dist_t (fst st) (snd st ! idx)) = None then [idx] else [])
     @ unplaced n dist_t order (place_task n dist_t idx st)"

text \<open>The cost difference that the optimizer computes for the move of a task to a node.\<close>

definition cost_diff_of :: "int matrix \<Rightarrow> Task \<Rightarrow> nat \<Rightarrow> int" where
  "cost_diff_of dist_t t new_node =
     int64 (int64 (dist_t (start_node t) new_node * demand t)
            - int64 (dist_t (start_node t) (end_node t) * demand t))"

text \<open>The states of the annealing loop after each of its iterations, the first state included.\<close>

definition sa_states :: "nat \<Rightarrow> int matrix \<Rightarrow> draw list \<Rightarrow> sa_state \<Rightarrow> sa_state list" where
  "sa_states n dist_t draws s = map (\<lambda>k. sa_loop n dist_t (take k draws) s) [0..<Suc (length draws)]"

text \<open>What the costs, the loads and reachability depend on in a task.\<close>

definition core :: "Task \<Rightarrow> nat \<times> int \<times> nat" where
  "core t = (start_node t, demand t, end_node t)"

text \<open>The assignment tracked as the best, as tasks.\<close>

definition best_tasks :: "int matrix \<Rightarrow> sa_state \<Rightarrow> Task list" where
  "best_tasks dist_t s = written_back dist_t (best_assignment s) (sa_tasks s)"

text \<open>Every task's start node and end node are related by \<open>Q\<close>.\<close>

definition ends_ok :: "(nat \<Rightarrow> nat \<Rightarrow> bool) \<Rightarrow> Task list \<Rightarrow> bool" where
  "ends_ok Q tasks \<longleftrightarrow> (\<forall>t\<in>set tasks. Q (start_node t) (end_node t))"

text \<open>No node of \<open>1..N\<close> is used beyond its capacity.\<close>

definition within_capacity :: "nat \<Rightarrow> (nat \<Rightarrow> Node) \<Rightarrow> bool" where
  "within_capacity n nodes \<longleftrightarrow> (\<forall>i\<in>{1..n}. current_usage (nodes i) \<le> capacity (nodes i))"

text \<open>
  The ranges in which the usage counters of the planner are those of the integers: no
  node of \<open>1..N\<close> is used beyond its capacity, no counter and no demand is negative, and
  a capacity plus a demand fits in 32 bits.
\<close>

definition planner_ok :: "nat \<Rightarrow> (nat \<Rightarrow> Node) \<Rightarrow> Task list \<Rightarrow> bool" where
  "planner_ok n nodes tasks \<longleftrightarrow>
     within_capacity n nodes \<and>
     (\<forall>i. 0 \<le> current_usage (nodes i)) \<and>
     (\<forall>t\<in>set tasks. 0 \<le> demand t) \<and>
     (\<forall>i\<in>{1..n}. \<forall>t\<in>set tasks. capacity (nodes i) + demand t \<le> 2147483647)"

text \<open>
  The ranges in which the usage counters of the optimizer are those of the integers: no
  node of \<open>1..N\<close> is used beyond its capacity, the demands and the capacities are not
  negative, a capacity plus all the demands fits in 32 bits, every counter holds a 32-bit
  value, and no counter is below the load of its node by more than all the demands.
\<close>

definition total_demand :: "Task list \<Rightarrow> int" where
  "total_demand tasks = sum_list (map demand tasks)"

definition usage_ok :: "nat \<Rightarrow> (nat \<Rightarrow> Node) \<Rightarrow> Task list \<Rightarrow> bool" where
  "usage_ok n nodes tasks \<longleftrightarrow>
     within_capacity n nodes \<and>
     (\<forall>t\<in>set tasks. 0 \<le> demand t) \<and>
     (\<forall>i\<in>{1..n}. 0 \<le> capacity (nodes i) \<and>
                  capacity (nodes i) + total_demand tasks \<le> 2147483647) \<and>
     (\<forall>i. fits32 (current_usage (nodes i))) \<and>
     (\<forall>i. load tasks i - total_demand tasks \<le> current_usage (nodes i))"

subsection \<open>The simulation\<close>

text \<open>
  What is left of a task's way, counted so that every move of an unfinished task lowers
  it: 0 for a finished task, one more than the hops still ahead otherwise.
\<close>

definition remaining :: "Task \<Rightarrow> nat" where
  "remaining t = (if finished t then 0 else 1 + (length (path t) - path_idx t))"

text \<open>Task \<open>i\<close> is about to cross the link between \<open>a\<close> and \<open>b\<close>, in either direction.\<close>

definition crosses :: "Task list \<Rightarrow> nat \<Rightarrow> nat \<Rightarrow> nat \<Rightarrow> bool" where
  "crosses tasks a b i \<longleftrightarrow>
     (current_pos_node (tasks ! i) = a \<and> path (tasks ! i) ! path_idx (tasks ! i) = b) \<or>
     (current_pos_node (tasks ! i) = b \<and> path (tasks ! i) ! path_idx (tasks ! i) = a)"

text \<open>A task after its move across the next link of its path.\<close>

definition advance :: "Task \<Rightarrow> Task" where
  "advance t =
     (let t1 = t\<lparr>current_pos_node := path t ! path_idx t, path_idx := path_idx t + 1\<rparr>
      in if path_idx t1 \<ge> length (path t1) then t1\<lparr>finished := True\<rparr> else t1)"

text \<open>The log entry of the move of a task at a time step.\<close>

definition move_entry :: "nat \<Rightarrow> Task \<Rightarrow> LogEntry" where
  "move_entry current_time t =
     \<lparr>log_time = current_time, log_task_id = task_id t, log_from = current_pos_node t,
      log_to = path t ! path_idx t\<rparr>"

text \<open>
  The number of crossings of the link between \<open>a\<close> and \<open>b\<close>, in either direction, that
  the log records for time step \<open>t\<close>.
\<close>

definition crossings :: "LogEntry list \<Rightarrow> nat \<Rightarrow> nat \<Rightarrow> nat \<Rightarrow> nat" where
  "crossings logs t a b =
     length (filter (\<lambda>e. log_time e = t \<and>
                ((log_from e = a \<and> log_to e = b) \<or> (log_from e = b \<and> log_to e = a))) logs)"

text \<open>
  Every unfinished task has a next node on its path: the index the simulation reads at
  is inside the path.
\<close>

definition waiting_in_range :: "Task list \<Rightarrow> bool" where
  "waiting_in_range tasks \<longleftrightarrow> (\<forall>t\<in>set tasks. finished t \<or> path_idx t < length (path t))"

section \<open>A worked example\<close>

text \<open>
  Three nodes with capacities 0, 3 and 10, links 1-2 of cost 1, 1-3 of cost 2 and 2-3
  of cost 10 (each of bandwidth 1), a task of demand 3 on node 1 and a task of demand 2
  on node 2. The planner sends the first task to node 2 and the second to node 3, at
  total cost 9. The optimizer runs 1024 iterations: the first moves the first task to
  node 3 (accepted by the Metropolis test), the second moves the second task back to
  node 2, which brings the total cost to 6, and the others draw the first task and the
  node it is on.
\<close>

definition ex_links :: "link list" where
  "ex_links = [(1, 2, 1, 1), (1, 3, 2, 1), (2, 3, 10, 1)]"

definition ex_nodes :: "nat \<Rightarrow> Node" where
  "ex_nodes = read_nodes [(1, 0), (2, 3), (3, 10)]"

definition ex_tasks :: "Task list" where
  "ex_tasks = read_tasks [(1, 1, 3), (2, 2, 2)]"

definition ex_dist :: "int matrix" where
  "ex_dist = fst (routing 3 ex_links)"

text \<open>An insertion sort stands for the library sort in the examples.\<close>

fun insert_by :: "(nat \<Rightarrow> nat \<Rightarrow> bool) \<Rightarrow> nat \<Rightarrow> nat list \<Rightarrow> nat list" where
  "insert_by lt x [] = [x]"
| "insert_by lt x (y # ys) =
     (if lt y x then y # insert_by lt x ys else x # y # ys)"

definition insertion_sort :: sorter where
  "insertion_sort lt xs = foldr (insert_by lt) xs []"

definition ex_planned :: "(nat \<Rightarrow> Node) \<times> Task list" where
  "ex_planned = solveAllocationGreedy 3 ex_dist insertion_sort (ex_nodes, ex_tasks)"

definition ex_draws :: "draw list" where
  "ex_draws = (0, 2, True) # (1, 1, False) # replicate 1022 (0, 2, False)"

declare follow_hops.simps [code]

declare sim_loop.simps [code]

section \<open>Floyd-Warshall: distances and routes\<close>

lemma upd2_apply: "upd2 m i j x a b = (if a = i \<and> b = j then x else m a b)"
  by (simp add: upd2_def)


lemma int32_eq:
  assumes "- 2147483648 \<le> x" and "x \<le> 2147483647"
  shows "int32 x = x"
  using assms by (simp add: int32_def)

lemma int32_range: "- 2147483648 \<le> int32 x" "int32 x \<le> 2147483647"
proof -
  have "0 \<le> (x + 2147483648) mod 4294967296" "(x + 2147483648) mod 4294967296 < 4294967296"
    by simp_all
  then show "- 2147483648 \<le> int32 x" "int32 x \<le> 2147483647"
    by (simp_all add: int32_def)
qed

lemma int32_dist:
  assumes "0 \<le> a" "a \<le> INF_val" "0 \<le> b" "b \<le> INF_val"
  shows "int32 (a + b) = a + b"
  using assms by (intro int32_eq) (simp_all add: INF_val_def)

text \<open>
  The structural part: when the pivot leaves its own row and column as they are, a pivot
  of the triple loop is one parallel step.
\<close>

lemma pivot_on_empty: "pivot_on {} k t = t"
  by (cases t) (simp add: pivot_on_def)

lemma relax_pivot_on:
  assumes "\<not> improves k d i k" and "\<not> improves k d k j" and "(i, j) \<notin> S"
  shows "relax k i j (pivot_on S k (d, nh)) = pivot_on (insert (i, j) S) k (d, nh)"
proof -
  obtain d' nh' where p: "pivot_on S k (d, nh) = (d', nh')" by (cases "pivot_on S k (d, nh)")
  have e: "d' i k = d i k" "d' k j = d k j" "d' i j = d i j" "nh' i k = nh i k"
    using p assms by (auto simp: pivot_on_def)
  have d': "d' = (\<lambda>a b. if (a, b) \<in> S \<and> improves k d a b then int32 (d a k + d k b) else d a b)"
    and nh': "nh' = (\<lambda>a b. if (a, b) \<in> S \<and> improves k d a b then nh a k else nh a b)"
    using p by (auto simp: pivot_on_def)
  show ?thesis
  proof (cases "improves k d i j")
    case True
    then have "relax k i j (d', nh') = (upd2 d' i j (int32 (d i k + d k j)), upd2 nh' i j (nh i k))"
      using e by (simp add: relax_def improves_def)
    moreover have "upd2 d' i j (int32 (d i k + d k j))
        = (\<lambda>a b. if (a, b) \<in> insert (i, j) S \<and> improves k d a b then int32 (d a k + d k b) else d a b)"
      using True by (auto simp: d' upd2_apply fun_eq_iff)
    moreover have "upd2 nh' i j (nh i k)
        = (\<lambda>a b. if (a, b) \<in> insert (i, j) S \<and> improves k d a b then nh a k else nh a b)"
      using True by (auto simp: nh' upd2_apply fun_eq_iff)
    ultimately show ?thesis unfolding p by (simp add: pivot_on_def)
  next
    case False
    then have "relax k i j (d', nh') = (d', nh')"
      using e by (auto simp: relax_def improves_def)
    moreover have "d' = (\<lambda>a b. if (a, b) \<in> insert (i, j) S \<and> improves k d a b
        then int32 (d a k + d k b) else d a b)"
      using False by (auto simp: d' fun_eq_iff)
    moreover have "nh' = (\<lambda>a b. if (a, b) \<in> insert (i, j) S \<and> improves k d a b
        then nh a k else nh a b)"
      using False by (auto simp: nh' fun_eq_iff)
    ultimately show ?thesis unfolding p by (simp add: pivot_on_def)
  qed
qed

lemma fold_relax_pivot_on:
  assumes col: "\<not> improves k d i k"
    and "\<forall>j\<in>set js. \<not> improves k d k j"
    and "distinct js" and "\<forall>j\<in>set js. (i, j) \<notin> S"
  shows "fold (relax k i) js (pivot_on S k (d, nh)) = pivot_on (S \<union> {i} \<times> set js) k (d, nh)"
  using assms(2,3,4)
proof (induction js arbitrary: S)
  case Nil
  then show ?case by simp
next
  case (Cons j js)
  have "fold (relax k i) (j # js) (pivot_on S k (d, nh))
      = fold (relax k i) js (pivot_on (insert (i, j) S) k (d, nh))"
    using Cons.prems col relax_pivot_on[where d=d and k=k and i=i and j=j and S=S and nh=nh]
    by simp
  also have "\<dots> = pivot_on (insert (i, j) S \<union> {i} \<times> set js) k (d, nh)"
    using Cons.prems by (intro Cons.IH) auto
  also have "insert (i, j) S \<union> {i} \<times> set js = S \<union> {i} \<times> set (j # js)"
    by auto
  finally show ?case .
qed

lemma fold_row_pivot_on:
  assumes row: "\<forall>j\<in>set js. \<not> improves k d k j" and js: "distinct js"
    and "\<forall>i\<in>set rows. \<not> improves k d i k"
    and "distinct rows"
    and "\<forall>i\<in>set rows. \<forall>j\<in>set js. (i, j) \<notin> S"
  shows "fold (\<lambda>i. fold (relax k i) js) rows (pivot_on S k (d, nh))
       = pivot_on (S \<union> set rows \<times> set js) k (d, nh)"
  using assms(3,4,5)
proof (induction rows arbitrary: S)
  case Nil
  then show ?case by simp
next
  case (Cons i rows)
  have "fold (\<lambda>i. fold (relax k i) js) (i # rows) (pivot_on S k (d, nh))
      = fold (\<lambda>i. fold (relax k i) js) rows (pivot_on (S \<union> {i} \<times> set js) k (d, nh))"
    using Cons.prems row js
      fold_relax_pivot_on[where d=d and k=k and i=i and js=js and S=S and nh=nh]
    by simp
  also have "\<dots> = pivot_on ((S \<union> {i} \<times> set js) \<union> set rows \<times> set js) k (d, nh)"
    using Cons.prems by (intro Cons.IH) auto
  also have "(S \<union> {i} \<times> set js) \<union> set rows \<times> set js = S \<union> set (i # rows) \<times> set js"
    by auto
  finally show ?case .
qed

lemma fw_pivot_eq:
  assumes "\<forall>i\<in>{1..n}. \<not> improves k d i k \<and> \<not> improves k d k i"
  shows "fw_pivot n k (d, nh) = pivot_on ({1..n} \<times> {1..n}) k (d, nh)"
proof -
  have s: "set [1..<Suc n] = {1..n}" by auto
  have r: "fw_row n k = (\<lambda>i. fold (relax k i) [1..<Suc n])"
    by (simp add: fun_eq_iff fw_row_def)
  have "fold (\<lambda>i. fold (relax k i) [1..<Suc n]) [1..<Suc n] (pivot_on {} k (d, nh))
      = pivot_on ({} \<union> set [1..<Suc n] \<times> set [1..<Suc n]) k (d, nh)"
    by (rule fold_row_pivot_on) (use assms in \<open>auto simp del: upt_Suc\<close>)
  then show ?thesis
    unfolding fw_pivot_def r s by (simp only: pivot_on_empty Un_empty_left)
qed

lemma dist_okD:
  assumes "dist_ok n w d" "i \<in> {1..n}" "j \<in> {1..n}"
  shows "0 \<le> d i j" "d i j \<le> INF_val" "d i j \<le> w i j" "d i i = 0"
  using assms by (auto simp: dist_ok_def)

text \<open>Between 0 and \<open>INF_val\<close> the sum of two distances fits, so the pivot adds exactly.\<close>

lemma via_exact:
  assumes "dist_ok n w d" "i \<in> {1..n}" "j \<in> {1..n}" "k \<in> {1..n}"
  shows "int32 (d i k + d k j) = d i k + d k j"
  using dist_okD(1,2)[OF assms(1,2,4)] dist_okD(1,2)[OF assms(1,4,3)]
  by (intro int32_dist)

lemma improves_iff:
  assumes "dist_ok n w d" "i \<in> {1..n}" "j \<in> {1..n}" "k \<in> {1..n}"
  shows "improves k d i j \<longleftrightarrow> d i k + d k j < d i j"
  using dist_okD(1,2)[OF assms(1,2,4)] dist_okD(1,2)[OF assms(1,4,3)]
    dist_okD(1,2)[OF assms(1,2,3)] via_exact[OF assms]
  by (auto simp: improves_def)

lemma dist_ok_pivot_fixed:
  assumes "dist_ok n w d" "k \<in> {1..n}" "i \<in> {1..n}"
  shows "\<not> improves k d i k \<and> \<not> improves k d k i"
  using improves_iff[OF assms(1,3,2,2)] improves_iff[OF assms(1,2,3,2)]
    dist_okD(4)[OF assms(1,2,2)]
  by simp

lemma pivot_dist:
  assumes "dist_ok n w d" "i \<in> {1..n}" "j \<in> {1..n}" "k \<in> {1..n}"
    and "pivot_on ({1..n} \<times> {1..n}) k (d, nh) = (d', nh')"
  shows "d' i j = min (d i j) (d i k + d k j)"
    and "nh' i j = (if d i k + d k j < d i j then nh i k else nh i j)"
  using assms(5) improves_iff[OF assms(1-4)] via_exact[OF assms(1-4)] assms(2,3)
  by (auto simp: pivot_on_def)

lemma pivot_dist_ok:
  assumes ok: "dist_ok n w d" and k: "k \<in> {1..n}"
    and p: "pivot_on ({1..n} \<times> {1..n}) k (d, nh) = (d', nh')"
  shows "dist_ok n w d'"
  unfolding dist_ok_def
proof (intro conjI ballI)
  fix i j assume i: "i \<in> {1..n}" and j: "j \<in> {1..n}"
  note e = pivot_dist(1)[OF ok i j k p]
  note a = dist_okD(1-3)[OF ok i j] and b = dist_okD(1)[OF ok i k] and c = dist_okD(1)[OF ok k j]
  show "0 \<le> d' i j" using e a b c by simp
  show "d' i j \<le> INF_val" using e a by simp
  show "d' i j \<le> w i j" using e a by simp
next
  fix i assume i: "i \<in> {1..n}"
  note e = pivot_dist(1)[OF ok i i k p]
  show "d' i i = 0"
    using e dist_okD(4)[OF ok i i] dist_okD(1)[OF ok i k] dist_okD(1)[OF ok k i] by simp
qed

lemma pivot_tri_ok:
  assumes ok: "dist_ok n w d" and tri: "tri_ok n k d" and k: "Suc k \<in> {1..n}"
    and p: "pivot_on ({1..n} \<times> {1..n}) (Suc k) (d, nh) = (d', nh')"
  shows "tri_ok n (Suc k) d'"
  unfolding tri_ok_def
proof (intro ballI)
  fix i j l assume i: "i \<in> {1..n}" and j: "j \<in> {1..n}" and l: "l \<in> {1..Suc k}"
  have ln: "l \<in> {1..n}" using l k by auto
  note eij = pivot_dist(1)[OF ok i j k p]
  note eil = pivot_dist(1)[OF ok i ln k p]
  note elj = pivot_dist(1)[OF ok ln j k p]
  show "d' i j \<le> d' i l + d' l j"
  proof (cases "l = Suc k")
    case True
    have "d (Suc k) (Suc k) = 0" using dist_okD(4)[OF ok k k] .
    then show ?thesis
      using eij eil elj True dist_okD(1)[OF ok i k] dist_okD(1)[OF ok k j] by simp
  next
    case False
    then have lk: "l \<in> {1..k}" using l by auto
    have t1: "d i j \<le> d i l + d l j" using tri i j lk by (simp add: tri_ok_def)
    have t2: "d (Suc k) j \<le> d (Suc k) l + d l j" using tri k j lk by (simp add: tri_ok_def)
    have t3: "d i (Suc k) \<le> d i l + d l (Suc k)" using tri i k lk by (simp add: tri_ok_def)
    note n1 = dist_okD(1)[OF ok k ln] and n2 = dist_okD(1)[OF ok ln k]
    show ?thesis using eij eil elj t1 t2 t3 n1 n2 by (simp add: min_def)
  qed
qed

lemma rank_bound:
  fixes R :: "nat matrix"
  shows "\<exists>B. \<forall>a\<in>{1..n}. \<forall>b\<in>{1..n}. R a b < B"
proof -
  let ?S = "(\<lambda>(a, b). R a b) ` ({1..n} \<times> {1..n})"
  have fin: "finite ?S" by simp
  have "\<forall>a\<in>{1..n}. \<forall>b\<in>{1..n}. R a b < Suc (Max ?S)"
  proof (intro ballI)
    fix a b assume "a \<in> {1..n}" "b \<in> {1..n}"
    then have "R a b \<in> ?S" by force
    then have "R a b \<le> Max ?S" using fin by (rule_tac Max_ge) auto
    then show "R a b < Suc (Max ?S)" by simp
  qed
  then show ?thesis by blast
qed

lemma pivot_hop_ok:
  assumes ok: "dist_ok n w d" and hop: "hop_ok n w R (d, nh)" and k: "k \<in> {1..n}"
    and w: "\<forall>i\<in>{1..n}. \<forall>j\<in>{1..n}. 0 \<le> w i j"
    and p: "pivot_on ({1..n} \<times> {1..n}) k (d, nh) = (d', nh')"
  shows "\<exists>R'. hop_ok n w R' (d', nh')"
proof -
  obtain B where B: "\<forall>a\<in>{1..n}. \<forall>b\<in>{1..n}. R a b < B"
    using rank_bound[of n R] by blast
  define R' where "R' = (\<lambda>i j. if d i k + d k j < d i j then B + R i k else R i j)"
  have hopD: "nh i j \<in> {1..n} \<and> nh i j \<noteq> i \<and> w i (nh i j) < INF_val \<and>
      w i (nh i j) + d (nh i j) j \<le> d i j \<and> (d (nh i j) j = d i j \<longrightarrow> R (nh i j) j < R i j)"
    if "i \<in> {1..n}" "j \<in> {1..n}" "i \<noteq> j" "d i j < INF_val" for i j
    using hop that by (simp add: hop_ok_def)
  have "hop_ok n w R' (d', nh')"
    unfolding hop_ok_def
  proof (clarify)
    fix i j assume i: "i \<in> {1..n}" and j: "j \<in> {1..n}" and ij: "i \<noteq> j"
      and fin: "d' i j < INF_val"
    note eij = pivot_dist[OF ok i j k p]
    show "nh' i j \<in> {1..n} \<and> nh' i j \<noteq> i \<and> w i (nh' i j) < INF_val \<and>
        w i (nh' i j) + d' (nh' i j) j \<le> d' i j \<and>
        (d' (nh' i j) j = d' i j \<longrightarrow> R' (nh' i j) j < R' i j)"
    proof (cases "d i k + d k j < d i j")
      case False
      then have dij: "d' i j = d i j" and nij: "nh' i j = nh i j" using eij by auto
      have h: "nh i j \<in> {1..n}" "nh i j \<noteq> i" "w i (nh i j) < INF_val"
        "w i (nh i j) + d (nh i j) j \<le> d i j" "d (nh i j) j = d i j \<longrightarrow> R (nh i j) j < R i j"
        using hopD[OF i j ij] fin dij by auto
      note emj = pivot_dist(1)[OF ok h(1) j k p]
      have w0: "0 \<le> w i (nh i j)" using w i h(1) by blast
      have le: "d' (nh i j) j \<le> d (nh i j) j" using emj by simp
      have rk: "R' (nh i j) j < R' i j" if "d' (nh i j) j = d' i j"
      proof -
        have "d (nh i j) j = d i j" using that le h(4) w0 dij by linarith
        moreover then have "\<not> d (nh i j) k + d k j < d (nh i j) j"
          using emj that dij by (simp add: min_def split: if_splits)
        ultimately show ?thesis using h(5) False by (simp add: R'_def)
      qed
      show ?thesis using h le rk dij nij by auto
    next
      case True
      then have dij: "d' i j = d i k + d k j" and nij: "nh' i j = nh i k" using eij by auto
      have ik: "i \<noteq> k" using True dist_okD(4)[OF ok i i] by auto
      have dkj: "0 \<le> d k j" using dist_okD(1)[OF ok k j] .
      have dik: "d i k < INF_val" using fin dij dkj by linarith
      have h: "nh i k \<in> {1..n}" "nh i k \<noteq> i" "w i (nh i k) < INF_val"
        "w i (nh i k) + d (nh i k) k \<le> d i k" "d (nh i k) k = d i k \<longrightarrow> R (nh i k) k < R i k"
        using hopD[OF i k ik dik] by auto
      note emj = pivot_dist(1)[OF ok h(1) j k p]
      have le: "d' (nh i k) j \<le> d (nh i k) k + d k j" using emj by simp
      have rk: "R' (nh i k) j < R' i j" if eq: "d' (nh i k) j = d' i j"
      proof (cases "d (nh i k) k + d k j < d (nh i k) j")
        case False
        have "R (nh i k) j < B" using B h(1) j by blast
        then show ?thesis using False True by (simp add: R'_def)
      next
        case imp: True
        then have "d' (nh i k) j = d (nh i k) k + d k j" using emj by simp
        then have "d (nh i k) k = d i k" using eq dij by simp
        then have "R (nh i k) k < R i k" using h(5) by simp
        then show ?thesis using imp True by (simp add: R'_def)
      qed
      show ?thesis using h le rk dij nij by auto
    qed
  qed
  then show ?thesis by blast
qed



lemma link_costs_Cons:
  "link_costs ((u, v, c, bw) # links) a b =
     (if (u = a \<and> v = b) \<or> (u = b \<and> v = a) then c # link_costs links a b
      else link_costs links a b)"
  by (simp add: link_costs_def)

lemma link_costs_Nil: "link_costs [] a b = []"
  by (simp add: link_costs_def)

lemma sym_upd:
  fixes d :: "int matrix"
  assumes e: "d x y = d y x"
  shows "upd2 (upd2 d u v c) v u c x y = upd2 (upd2 d u v c) v u c y x"
  unfolding upd2_apply using e
  by (cases "x = u"; cases "y = v"; cases "x = v"; cases "y = u"; simp)

lemma upd_min:
  fixes d :: "int matrix"
  assumes e: "d v u = d u v"
  shows "(if c < d u v then upd2 (upd2 d u v c) v u c else d) a b
     = (if (u = a \<and> v = b) \<or> (u = b \<and> v = a) then min c (d a b) else d a b)"
  unfolding upd2_apply using e
  by (cases "c < d u v"; cases "a = u"; cases "b = v"; cases "a = v"; cases "b = u";
      simp add: min_def)

lemma fold_read_link_dist:
  assumes "\<forall>a b. d a b = d b a"
  shows "snd (fold read_link links (adj, d)) a b = Min (insert (d a b) (set (link_costs links a b)))
       \<and> (\<forall>a b. snd (fold read_link links (adj, d)) a b = snd (fold read_link links (adj, d)) b a)"
  using assms
proof (induction links arbitrary: adj d)
  case Nil
  then show ?case by (simp add: link_costs_Nil)
next
  case (Cons l links)
  obtain u v c bw where l: "l = (u, v, c, bw)" by (cases l) auto
  define d' where "d' = (if c < d u v then upd2 (upd2 d u v c) v u c else d)"
  define adj' where "adj' = upd2 (upd2 adj v u bw) u v bw"
  have step: "read_link l (adj, d) = (adj', d')"
    by (simp add: l read_link_def d'_def adj'_def)
  have duv: "d v u = d u v" using Cons.prems by blast
  have "d' x y = d' y x" for x y
  proof -
    have e: "d x y = d y x" using Cons.prems by blast
    show ?thesis unfolding d'_def
      using sym_upd[where d=d and x=x and y=y and u=u and v=v and c=c] e
      by (cases "c < d u v") simp_all
  qed
  then have sym: "\<forall>a b. d' a b = d' b a" by blast
  have d'ab: "d' a b = (if (u = a \<and> v = b) \<or> (u = b \<and> v = a) then min c (d a b) else d a b)"
    unfolding d'_def using upd_min[where d=d and u=u and v=v and c=c and a=a and b=b] duv
    by blast
  have "Min (insert (d' a b) (set (link_costs links a b)))
      = Min (insert (d a b) (set (link_costs (l # links) a b)))"
  proof (cases "(u = a \<and> v = b) \<or> (u = b \<and> v = a)")
    case True
    then have "d' a b = min c (d a b)" using d'ab by simp
    moreover have "link_costs (l # links) a b = c # link_costs links a b"
      using True by (simp add: l link_costs_Cons)
    moreover have "Min (insert (min c (d a b)) (set (link_costs links a b)))
        = Min (insert (d a b) (insert c (set (link_costs links a b))))"
      by (cases "link_costs links a b = []") (auto simp: min.commute min.left_commute)
    ultimately show ?thesis by simp
  next
    case False
    have "d' a b = d a b" unfolding d'ab using False by (simp only: if_False)
    moreover have "link_costs (l # links) a b = link_costs links a b"
      unfolding l link_costs_Cons using False by (simp only: if_False)
    ultimately show ?thesis by (simp only:)
  qed
  then show ?case using Cons.IH[OF sym, of adj'] step by simp
qed

lemma init_dist_sym: "init_dist n a b = init_dist n b a"
  by (auto simp: init_dist_def)

lemma input_dist_Min:
  "input_dist n links a b = Min (insert (init_dist n a b) (set (link_costs links a b)))"
  unfolding input_dist_def read_links_def
  using fold_read_link_dist[of "init_dist n" links "init_adj_bandwidth n" a b]
  by (simp add: init_dist_sym)

lemma link_costs_nonneg:
  assumes "\<forall>(u, v, c, bw)\<in>set links. 0 \<le> c" and "c \<in> set (link_costs links a b)"
  shows "0 \<le> c"
  using assms by (auto simp: link_costs_def)

lemma input_dist_ok:
  assumes "\<forall>(u, v, c, bw)\<in>set links. 0 \<le> c"
  shows "dist_ok n (input_dist n links) (input_dist n links)"
  unfolding dist_ok_def
proof (intro conjI ballI)
  fix i j assume i: "i \<in> {1..n}" and j: "j \<in> {1..n}"
  let ?S = "insert (init_dist n i j) (set (link_costs links i j))"
  have fin: "finite ?S" and ne: "?S \<noteq> {}" by auto
  have "\<forall>x\<in>?S. 0 \<le> x"
    using link_costs_nonneg[OF assms] by (auto simp: init_dist_def INF_val_def)
  then show "0 \<le> input_dist n links i j"
    unfolding input_dist_Min using Min_in[OF fin ne] by blast
  have "Min ?S \<le> init_dist n i j" using fin by (intro Min_le) auto
  moreover have "init_dist n i j \<le> INF_val" by (simp add: init_dist_def INF_val_def)
  ultimately show "input_dist n links i j \<le> INF_val"
    unfolding input_dist_Min by linarith
  show "input_dist n links i j \<le> input_dist n links i j" by simp
next
  fix i assume i: "i \<in> {1..n}"
  let ?S = "insert (init_dist n i i) (set (link_costs links i i))"
  have fin: "finite ?S" and ne: "?S \<noteq> {}" by auto
  have z: "init_dist n i i = 0" using i by (simp add: init_dist_def)
  have "\<forall>x\<in>?S. 0 \<le> x"
    using link_costs_nonneg[OF assms] z by auto
  then have ge: "0 \<le> Min ?S" using Min_in[OF fin ne] by blast
  have le: "Min ?S \<le> 0" using fin z by (intro Min_le) auto
  show "input_dist n links i i = 0"
    unfolding input_dist_Min using ge le by (rule_tac antisym)
qed

lemma input_dist_link:
  assumes "i \<in> {1..n}" "j \<in> {1..n}" "i \<noteq> j" "input_dist n links i j < INF_val"
  shows "link_costs links i j \<noteq> []" and "link_cost links i j = input_dist n links i j"
proof -
  have init: "init_dist n i j = INF_val" using assms(1-3) by (simp add: init_dist_def)
  show ne: "link_costs links i j \<noteq> []"
    using assms(4) init unfolding input_dist_Min by auto
  have "Min (insert INF_val (set (link_costs links i j)))
      = min INF_val (Min (set (link_costs links i j)))"
    using ne by simp
  then show "link_cost links i j = input_dist n links i j"
    using assms(4) init unfolding input_dist_Min link_cost_def by (simp add: min_def split: if_splits)
qed

lemma init_hop_ok:
  assumes "dist_ok n w w"
  shows "hop_ok n w (\<lambda>i j. if i = j then 0 else 1) (w, init_next_hop n)"
  unfolding hop_ok_def
proof (clarify)
  fix i j assume i: "i \<in> {1..n}" and j: "j \<in> {1..n}" and ij: "i \<noteq> j"
    and fin: "w i j < INF_val"
  have nh: "init_next_hop n i j = j" using i j by (simp add: init_next_hop_def)
  have "w j j = 0" using dist_okD(4)[OF assms j j] .
  then show "init_next_hop n i j \<in> {1..n} \<and> init_next_hop n i j \<noteq> i \<and>
      w i (init_next_hop n i j) < INF_val \<and>
      w i (init_next_hop n i j) + w (init_next_hop n i j) j \<le> w i j \<and>
      (w (init_next_hop n i j) j = w i j \<longrightarrow>
       (if init_next_hop n i j = j then 0 else 1) < (if i = j then (0::nat) else 1))"
    using nh j ij fin by simp
qed

lemma fw_prefix_inv:
  assumes w: "dist_ok n w w" and k: "k \<le> n"
  shows "dist_ok n w (fst (fold (fw_pivot n) [1..<Suc k] (w, init_next_hop n))) \<and>
         tri_ok n k (fst (fold (fw_pivot n) [1..<Suc k] (w, init_next_hop n))) \<and>
         (\<exists>R. hop_ok n w R (fold (fw_pivot n) [1..<Suc k] (w, init_next_hop n)))"
  using k
proof (induction k)
  case 0
  show ?case using w init_hop_ok[OF w] by (auto simp: tri_ok_def)
next
  case (Suc k)
  define t where "t = fold (fw_pivot n) [1..<Suc k] (w, init_next_hop n)"
  obtain d nh where t: "t = (d, nh)" by (cases t)
  have ih: "dist_ok n w d" "tri_ok n k d" "\<exists>R. hop_ok n w R (d, nh)"
    using Suc t unfolding t_def by auto
  obtain R where R: "hop_ok n w R (d, nh)" using ih(3) by blast
  have kn: "Suc k \<in> {1..n}" using Suc.prems by auto
  have z: "\<forall>i\<in>{1..n}. \<not> improves (Suc k) d i (Suc k) \<and> \<not> improves (Suc k) d (Suc k) i"
    using dist_ok_pivot_fixed[OF ih(1) kn] by blast
  obtain d' nh' where p: "pivot_on ({1..n} \<times> {1..n}) (Suc k) (d, nh) = (d', nh')"
    by (cases "pivot_on ({1..n} \<times> {1..n}) (Suc k) (d, nh)")
  have "fold (fw_pivot n) [1..<Suc (Suc k)] (w, init_next_hop n) = fw_pivot n (Suc k) t"
    by (simp add: t_def)
  also have "\<dots> = (d', nh')"
    using fw_pivot_eq[where d=d and k="Suc k" and n=n and nh=nh] z p t by simp
  finally have e: "fold (fw_pivot n) [1..<Suc (Suc k)] (w, init_next_hop n) = (d', nh')" .
  have wnn: "\<forall>i\<in>{1..n}. \<forall>j\<in>{1..n}. 0 \<le> w i j" using dist_okD(1)[OF w] by blast
  show ?case
    unfolding e
    using pivot_dist_ok[OF ih(1) kn p] pivot_tri_ok[OF ih(1,2) kn p]
      pivot_hop_ok[OF ih(1) R kn wnn p]
    by simp
qed

lemma floydWarshall_inv:
  assumes w: "dist_ok n w w" and r: "floydWarshall n (w, init_next_hop n) = (d, nh)"
  shows "dist_ok n w d" "tri_ok n n d" "\<exists>R. hop_ok n w R (d, nh)"
  using fw_prefix_inv[OF w, of n] r by (simp_all add: floydWarshall_def)



lemma follow_hops_route:
  assumes ok: "dist_ok n (input_dist n links) d" and tri: "tri_ok n n d"
    and hop: "hop_ok n (input_dist n links) R (d, nh)" and j: "j \<in> {1..n}"
  shows "i \<in> {1..n} \<Longrightarrow> d i j < INF_val \<Longrightarrow>
    \<exists>p. (\<forall>acc. follow_hops nh j i acc = Some (acc @ p)) \<and> last (i # p) = j \<and>
        hops_linked links i p \<and> path_cost (link_cost links) i p = d i j"
proof (induction i rule: wf_induct_rule[OF wf_measures[of "[\<lambda>i. nat (d i j), \<lambda>i. R i j]"]])
  case (1 i)
  let ?w = "input_dist n links"
  show ?case
  proof (cases "i = j")
    case True
    have "\<forall>acc. follow_hops nh j i acc = Some (acc @ [])"
      using True by (simp add: follow_hops.simps)
    moreover have "d i j = 0" using True dist_okD(4)[OF ok j j] by simp
    ultimately show ?thesis using True by (intro exI[of _ "[]"]) simp
  next
    case False
    define m where "m = nh i j"
    have h: "m \<in> {1..n}" "m \<noteq> i" "?w i m < INF_val" "?w i m + d m j \<le> d i j"
      "d m j = d i j \<longrightarrow> R m j < R i j"
      using hop "1.prems" j False unfolding m_def by (auto simp: hop_ok_def)
    have wim: "0 \<le> d i m" "d i m \<le> ?w i m" using dist_okD(1,3)[OF ok "1.prems"(1) h(1)] by auto
    have dmj: "0 \<le> d m j" using dist_okD(1)[OF ok h(1) j] .
    have fin: "d m j < INF_val" using h(4) wim "1.prems"(2) by linarith
    have less: "(m, i) \<in> measures [\<lambda>i. nat (d i j), \<lambda>i. R i j]"
    proof -
      have "d m j \<le> d i j" using h(4) wim by linarith
      then show ?thesis using h(5) dmj by (cases "d m j = d i j") auto
    qed
    obtain p where p: "\<forall>acc. follow_hops nh j m acc = Some (acc @ p)" "last (m # p) = j"
      "hops_linked links m p" "path_cost (link_cost links) m p = d m j"
      using "1.IH"[OF less h(1) fin] by blast
    have lk: "link_costs links i m \<noteq> []" "link_cost links i m = ?w i m"
      using input_dist_link[OF "1.prems"(1) h(1) _ h(3)] h(2) by auto
    have tr: "d i j \<le> d i m + d m j"
      using tri "1.prems"(1) j h(1) by (simp add: tri_ok_def)
    have cost: "?w i m + d m j = d i j" using tr h(4) wim by linarith
    have "follow_hops nh j i acc = Some (acc @ m # p)" for acc
      using False p(1)[rule_format, of "acc @ [m]"]
      by (subst follow_hops.simps) (simp add: m_def)
    then show ?thesis
      using p(2,3,4) lk cost by (intro exI[of _ "m # p"]) simp
  qed
qed

text \<open>
  Claim C2, amended. For an input whose link costs are not negative, after \<^verbatim>\<open>floydWarshall\<close>
  and for all nodes \<open>i\<close>, \<open>j\<close>, \<open>k\<close> in \<open>1..N\<close>: the distance from \<open>i\<close> to itself is 0,
  the triangle inequality holds through \<open>k\<close>, and when \<open>j\<close> is reachable from \<open>i\<close>
  (distance below \<open>INF\<close>) following \<open>next_hop\<close> from \<open>i\<close> returns a path that ends in
  \<open>j\<close>, whose hops are links of the input and whose link costs add up to the distance.
\<close>

theorem floydWarshall_routes:
  assumes costs: "\<forall>(u, v, c, bw)\<in>set links. 0 \<le> c"
    and r: "routing n links = (d, nh)"
    and i: "i \<in> {1..n}" and j: "j \<in> {1..n}" and k: "k \<in> {1..n}"
  shows "d i i = 0 \<and> d i j \<le> d i k + d k j \<and>
    (d i j < INF_val \<longrightarrow>
      (\<exists>p. follow_hops nh j i [] = Some p \<and> last (i # p) = j \<and>
           hops_linked links i p \<and> path_cost (link_cost links) i p = d i j))"
proof -
  note w = input_dist_ok[OF costs, of n]
  have r': "floydWarshall n (input_dist n links, init_next_hop n) = (d, nh)"
    using r by (simp add: routing_def)
  note inv = floydWarshall_inv[OF w r']
  obtain R where R: "hop_ok n (input_dist n links) R (d, nh)" using inv(3) by blast
  have "d i i = 0" using dist_okD(4)[OF inv(1) i i] .
  moreover have "d i j \<le> d i k + d k j" using inv(2) i j k by (simp add: tri_ok_def)
  moreover have "\<exists>p. follow_hops nh j i [] = Some p \<and> last (i # p) = j \<and>
           hops_linked links i p \<and> path_cost (link_cost links) i p = d i j"
    if fin: "d i j < INF_val"
  proof -
    obtain p where p: "\<forall>acc. follow_hops nh j i acc = Some (acc @ p)" "last (i # p) = j"
      "hops_linked links i p" "path_cost (link_cost links) i p = d i j"
      using follow_hops_route[OF inv(1,2) R j i fin] by blast
    have "follow_hops nh j i [] = Some p" using p(1)[rule_format, of "[]"] by simp
    then show ?thesis using p by blast
  qed
  ultimately show ?thesis by blast
qed

theorem floydWarshall_routes_witness:
  "fst (routing 3 [(1, 2, 4, 1), (2, 3, 1, 1), (1, 3, 7, 2)]) 1 1 = 0 \<and>
   fst (routing 3 [(1, 2, 4, 1), (2, 3, 1, 1), (1, 3, 7, 2)]) 1 3
     \<le> fst (routing 3 [(1, 2, 4, 1), (2, 3, 1, 1), (1, 3, 7, 2)]) 1 2
       + fst (routing 3 [(1, 2, 4, 1), (2, 3, 1, 1), (1, 3, 7, 2)]) 2 3 \<and>
   fst (routing 3 [(1, 2, 4, 1), (2, 3, 1, 1), (1, 3, 7, 2)]) 1 3 = 5 \<and>
   (\<exists>p. follow_hops (snd (routing 3 [(1, 2, 4, 1), (2, 3, 1, 1), (1, 3, 7, 2)])) 3 1 [] = Some p \<and>
        last (1 # p) = 3 \<and>
        hops_linked [(1, 2, 4, 1), (2, 3, 1, 1), (1, 3, 7, 2)] 1 p \<and>
        path_cost (link_cost [(1, 2, 4, 1), (2, 3, 1, 1), (1, 3, 7, 2)]) 1 p = 5)"
proof -
  define L :: "link list" where "L = [(1, 2, 4, 1), (2, 3, 1, 1), (1, 3, 7, 2)]"
  have h: "\<forall>(u, v, c, bw)\<in>set L. 0 \<le> c" by (simp add: L_def)
  have r: "routing 3 L = (fst (routing 3 L), snd (routing 3 L))" by simp
  have v: "fst (routing 3 L) 1 3 = 5" unfolding L_def by code_simp
  have "(1::nat) \<in> {1..3}" "(3::nat) \<in> {1..3}" "(2::nat) \<in> {1..3}" by simp_all
  from floydWarshall_routes[OF h r this] v show ?thesis
    unfolding L_def by (simp add: INF_val_def)
qed

text \<open>
  \<^verbatim>\<open>readInput\<close> takes any cost. With the single link 1-2 of cost \<open>-1\<close> the loop goes
  round the link and the distance from node 1 to itself ends at \<open>-2\<close>, not at 0.
\<close>

theorem negative_cost_counterexample:
  "fst (routing 2 [(1, 2, - 1, 1)]) 1 1 = - 2"
  by code_simp

section \<open>Distances only go down\<close>

lemma fold_read_link_bound:
  assumes "\<forall>a b. B a b = B b a" and "\<forall>a b. d a b \<le> B a b"
  shows "snd (fold read_link links (adj, d)) a b \<le> B a b"
  using assms(2)
proof (induction links arbitrary: adj d)
  case Nil
  then show ?case by simp
next
  case (Cons l links)
  obtain u v c bw where l: "l = (u, v, c, bw)" by (cases l) auto
  define d' where "d' = (if c < d u v then upd2 (upd2 d u v c) v u c else d)"
  have step: "read_link l (adj, d) = (upd2 (upd2 adj v u bw) u v bw, d')"
    by (simp add: l read_link_def d'_def)
  have duv: "d u v \<le> B u v" "B v u = B u v" using Cons.prems assms(1) by auto
  have "d' x y \<le> B x y" for x y
  proof -
    have "d x y \<le> B x y" using Cons.prems by blast
    then show ?thesis using duv unfolding d'_def upd2_apply by (cases "c < d u v") auto
  qed
  then show ?case using Cons.IH[of d'] step by simp
qed

lemma input_dist_bound: "input_dist n links a b \<le> init_dist n a b"
  unfolding input_dist_def read_links_def
  by (rule fold_read_link_bound) (simp_all add: init_dist_sym)

lemma relax_bound:
  assumes "\<forall>a b. fst t a b \<le> B a b"
  shows "\<forall>a b. fst (relax k i j t) a b \<le> B a b"
proof (intro allI)
  fix a b
  obtain d nh where t: "t = (d, nh)" by (cases t)
  have "d a b \<le> B a b" "d i j \<le> B i j" using assms t by auto
  then show "fst (relax k i j t) a b \<le> B a b"
    unfolding t relax_def upd2_apply by (auto simp: upd2_apply)
qed

lemma fold_bound:
  assumes step: "\<And>x t. \<forall>a b. fst t a b \<le> B a b \<Longrightarrow> \<forall>a b. fst (f x t) a b \<le> B a b"
    and "\<forall>a b. fst t a b \<le> (B a b :: int)"
  shows "\<forall>a b. fst (fold f xs t) a b \<le> B a b"
  using assms(2)
proof (induction xs arbitrary: t)
  case Nil
  then show ?case by simp
next
  case (Cons x xs)
  have "\<forall>a b. fst (f x t) a b \<le> B a b" using step[OF Cons.prems] .
  then show ?case using Cons.IH[of "f x t"] by simp
qed

lemma floydWarshall_bound:
  assumes "\<forall>a b. fst t a b \<le> B a b"
  shows "\<forall>a b. fst (floydWarshall n t) a b \<le> B a b"
  unfolding floydWarshall_def fw_pivot_def fw_row_def
  by (intro fold_bound relax_bound assms)

lemma routing_bound: "fst (routing n links) a b \<le> init_dist n a b"
  unfolding routing_def
  using floydWarshall_bound[of "(input_dist n links, init_next_hop n)" "init_dist n" n]
  by (simp add: input_dist_bound)

lemma routing_le: "fst (routing n links) a b \<le> INF_val"
  using routing_bound[of n links a b] by (auto simp: init_dist_def INF_val_def split: if_splits)

lemma routing_diag: "fst (routing n links) a a \<le> 0"
proof -
  have "init_dist n a a = 0" by (simp add: init_dist_def)
  then show ?thesis using routing_bound[of n links a a] by simp
qed

section \<open>The greedy planner\<close>


lemma fits32_int32: "fits32 x \<Longrightarrow> int32 x = x"
  by (simp add: fits32_def int32_eq)



text \<open>Whatever the magnitudes, the scan only returns a node that passed its two tests.\<close>

lemma scan_step_passed:
  assumes "\<forall>b. fst st = Some b \<longrightarrow> b \<in> set xs \<and> passed dist_t nodes t b"
  shows "\<forall>b. fst (scan_step dist_t nodes t x st) = Some b \<longrightarrow>
           b \<in> set (xs @ [x]) \<and> passed dist_t nodes t b"
  using assms by (cases st) (auto simp: scan_step_def Let_def passed_def)

lemma fold_scan_passed:
  assumes "\<forall>b. fst st = Some b \<longrightarrow> b \<in> set xs \<and> passed dist_t nodes t b"
  shows "\<forall>b. fst (fold (scan_step dist_t nodes t) ys st) = Some b \<longrightarrow>
           b \<in> set (xs @ ys) \<and> passed dist_t nodes t b"
  using assms
proof (induction ys arbitrary: st xs)
  case Nil
  then show ?case by simp
next
  case (Cons y ys)
  have "\<forall>b. fst (scan_step dist_t nodes t y st) = Some b \<longrightarrow>
           b \<in> set (xs @ [y]) \<and> passed dist_t nodes t b"
    using Cons.prems by (rule scan_step_passed)
  from Cons.IH[where st="scan_step dist_t nodes t y st" and xs="xs @ [y]", OF this]
  show ?case by simp
qed

lemma find_best_Some:
  assumes "find_best n dist_t nodes t = (Some b, mc)"
  shows "b \<in> {1..n}" and "dist_t (start_node t) b \<noteq> INF_val"
    and "int32 (current_usage (nodes b) + demand t) \<le> capacity (nodes b)"
proof -
  have "\<forall>b. fst (fold (scan_step dist_t nodes t) [1..<Suc n] (None, - 1)) = Some b \<longrightarrow>
      b \<in> set ([] @ [1..<Suc n]) \<and> passed dist_t nodes t b"
    by (rule fold_scan_passed) simp
  then have r: "b \<in> set [1..<Suc n] \<and> passed dist_t nodes t b"
    using assms unfolding find_best_def by (simp del: upt_Suc)
  show "b \<in> {1..n}" using r by auto
  show "dist_t (start_node t) b \<noteq> INF_val" using r by (simp add: passed_def)
  show "int32 (current_usage (nodes b) + demand t) \<le> capacity (nodes b)"
    using r by (simp add: passed_def)
qed












lemma read_nodes_usage: "current_usage (read_nodes lines i) = 0"
proof -
  have "\<forall>i. current_usage (nodes i) = 0 \<Longrightarrow> current_usage (fold read_node lines nodes i) = 0"
    for nodes
    by (induction lines arbitrary: nodes) (auto simp: read_node_def)
  then show ?thesis by (simp add: read_nodes_def zero_nodes_def)
qed

lemma sort_contractD:
  assumes "sort_contract lt [0..<m] ys"
  shows "distinct ys" and "set ys = {0..<m}"
proof -
  have m: "mset ys = mset [0..<m]" using assms by (simp add: sort_contract_def)
  show "distinct ys" using mset_eq_imp_distinct_iff[OF m] by simp
  show "set ys = {0..<m}" using mset_eq_setD[OF m] by simp
qed


text \<open>
  The contract of the library sort can be met: the insertion sort of the examples meets
  it with the program's comparator, on every list of indices.
\<close>

lemma insert_by_mset: "mset (insert_by lt x ys) = add_mset x (mset ys)"
  by (induction ys) simp_all

lemma insert_by_sorted:
  assumes "sorted_wrt (\<lambda>a b. \<not> demand_greater tasks b a) ys"
  shows "sorted_wrt (\<lambda>a b. \<not> demand_greater tasks b a) (insert_by (demand_greater tasks) x ys)"
  using assms
proof (induction ys)
  case Nil
  show ?case by simp
next
  case (Cons y ys)
  have s: "set (insert_by (demand_greater tasks) x ys) = insert x (set ys)"
    using arg_cong[OF insert_by_mset[of "demand_greater tasks" x ys], of set_mset] by simp
  show ?case
  proof (cases "demand_greater tasks y x")
    case True
    have ih: "sorted_wrt (\<lambda>a b. \<not> demand_greater tasks b a)
        (insert_by (demand_greater tasks) x ys)"
      using Cons by simp
    have "\<forall>z\<in>set (insert_by (demand_greater tasks) x ys). \<not> demand_greater tasks z y"
      unfolding s using True Cons.prems by (auto simp: demand_greater_def)
    then show ?thesis using True ih by simp
  next
    case False
    have "\<forall>z\<in>set (y # ys). \<not> demand_greater tasks z x"
      using False Cons.prems by (auto simp: demand_greater_def)
    then show ?thesis using False Cons.prems by simp
  qed
qed

lemma insertion_sort_contract:
  "sort_contract (demand_greater tasks) xs (insertion_sort (demand_greater tasks) xs)"
proof -
  have "mset (foldr (insert_by (demand_greater tasks)) xs []) = mset xs \<and>
        sorted_wrt (\<lambda>a b. \<not> demand_greater tasks b a)
          (foldr (insert_by (demand_greater tasks)) xs [])"
    by (induction xs) (simp_all add: insert_by_mset insert_by_sorted)
  then show ?thesis by (simp add: sort_contract_def insertion_sort_def)
qed


lemma greedy_example:
  "map (\<lambda>t. (end_node t, migration_cost t))
     (snd (solveAllocationGreedy 3 (fst (routing 3 [(1, 2, 4, 1), (2, 3, 1, 1), (1, 3, 7, 2)]))
        insertion_sort
        (read_nodes [(1, 1), (2, 3), (3, 5)], read_tasks [(10, 1, 2), (11, 1, 3), (12, 2, 1)])))
   = [(3, 10), (2, 12), (3, 1)]"
  by code_simp


section \<open>The annealing loop: the shape of an iteration\<close>

lemma cool_fields:
  "sa_nodes (cool s) = sa_nodes s" "sa_tasks (cool s) = sa_tasks s"
  "current_cost (cool s) = current_cost s" "best_cost (cool s) = best_cost s"
  "best_assignment (cool s) = best_assignment s"
  by (simp_all add: cool_def Let_def)

lemma cool_temp:
  "current_temp (cool s) =
     (if current_temp s * cooling_rate < T_end then T_start * (1 / 2)
      else current_temp s * cooling_rate)"
  by (simp add: cool_def Let_def)

lemma sa_move_fields:
  "sa_nodes (sa_move dist_t i e c s) =
     add_usage e (demand (sa_tasks s ! i))
       (add_usage (end_node (sa_tasks s ! i)) (- demand (sa_tasks s ! i)) (sa_nodes s))"
  "sa_tasks (sa_move dist_t i e c s) =
     (sa_tasks s)[i := (sa_tasks s ! i)\<lparr>end_node := e,
        migration_cost := int32 (dist_t (start_node (sa_tasks s ! i)) e * demand (sa_tasks s ! i))\<rparr>]"
  "current_cost (sa_move dist_t i e c s) = int64 (current_cost s + c)"
  "best_cost (sa_move dist_t i e c s) = min (best_cost s) (int64 (current_cost s + c))"
  "best_assignment (sa_move dist_t i e c s) =
     (if int64 (current_cost s + c) < best_cost s
      then map end_node (sa_tasks (sa_move dist_t i e c s)) else best_assignment s)"
  "current_temp (sa_move dist_t i e c s) = current_temp s"
  by (simp_all add: sa_move_def Let_def min_def)

text \<open>
  The three ways through an iteration: the \<^verbatim>\<open>continue\<close>, a rejected move, and an accepted
  move of a task \<open>i\<close> to a node \<open>e\<close> of \<open>1..N\<close> that is not its own, is reachable from its
  start node and passed the capacity test.
\<close>

lemma sa_iteration_cases:
  assumes "sa_tasks s \<noteq> []" and "0 < n"
  obtains (skip) "sa_iteration n dist_t dr s = s"
  | (reject) "sa_iteration n dist_t dr s = cool s"
  | (move) i e where "i < length (sa_tasks s)" "e \<in> {1..n}" "e \<noteq> end_node (sa_tasks s ! i)"
      "dist_t (start_node (sa_tasks s ! i)) e \<noteq> INF_val"
      "int32 (current_usage (sa_nodes s e) + demand (sa_tasks s ! i)) \<le> capacity (sa_nodes s e)"
      "sa_iteration n dist_t dr s =
         cool (sa_move dist_t i e (cost_diff_of dist_t (sa_tasks s ! i) e) s)"
proof -
  obtain r1 r2 m where dr: "dr = (r1, r2, m)" by (cases dr)
  define i where "i = r1 mod length (sa_tasks s)"
  define e where "e = r2 mod n + 1"
  have i: "i < length (sa_tasks s)" using assms(1) by (simp add: i_def)
  have e: "e \<in> {1..n}" using assms(2) by (simp add: e_def Suc_leI)
  show ?thesis
  proof (cases "e = end_node (sa_tasks s ! i) \<or> dist_t (start_node (sa_tasks s ! i)) e = INF_val")
    case True
    then have "sa_iteration n dist_t dr s = s"
      by (simp add: sa_iteration_def dr Let_def i_def e_def)
    then show ?thesis by (rule skip)
  next
    case False
    show ?thesis
    proof (cases "int32 (current_usage (sa_nodes s e) + demand (sa_tasks s ! i))
          \<le> capacity (sa_nodes s e)
        \<and> (cost_diff_of dist_t (sa_tasks s ! i) e < 0 \<or> m)")
      case True
      then have "sa_iteration n dist_t dr s =
         cool (sa_move dist_t i e (cost_diff_of dist_t (sa_tasks s ! i) e) s)"
        using False by (simp add: sa_iteration_def dr Let_def i_def e_def cost_diff_of_def)
      then show ?thesis using i e False True by (intro move[of i e]) auto
    next
      case nacc: False
      then have "sa_iteration n dist_t dr s = cool s"
        using False by (auto simp: sa_iteration_def dr Let_def i_def e_def cost_diff_of_def)
      then show ?thesis by (rule reject)
    qed
  qed
qed

lemma sa_iteration_length:
  assumes "sa_tasks s \<noteq> []" and "0 < n"
  shows "length (sa_tasks (sa_iteration n dist_t dr s)) = length (sa_tasks s)"
  using assms(1,2)
  by (cases rule: sa_iteration_cases[where dist_t=dist_t and dr=dr and n=n and s=s])
     (simp_all add: cool_fields sa_move_fields)

lemma sa_loop_Nil: "sa_loop n dist_t [] s = s"
  by (simp add: sa_loop_def)

lemma sa_loop_snoc:
  "sa_loop n dist_t (draws @ [dr]) s = sa_iteration n dist_t dr (sa_loop n dist_t draws s)"
  by (simp add: sa_loop_def)

text \<open>A property kept by every iteration holds along the whole loop.\<close>

lemma sa_loop_invariant:
  assumes init: "P s" and len: "sa_tasks s \<noteq> []"
    and step: "\<And>s dr. P s \<Longrightarrow> sa_tasks s \<noteq> [] \<Longrightarrow> P (sa_iteration n dist_t dr s)"
    and n: "0 < n"
  shows "P (sa_loop n dist_t draws s) \<and> sa_tasks (sa_loop n dist_t draws s) \<noteq> []"
proof (induction draws rule: rev_induct)
  case Nil
  show ?case using init len by (simp add: sa_loop_Nil)
next
  case (snoc dr draws)
  let ?s = "sa_loop n dist_t draws s"
  have "length (sa_tasks (sa_iteration n dist_t dr ?s)) = length (sa_tasks ?s)"
    using sa_iteration_length[of ?s n dist_t dr] snoc n by simp
  then show ?case using snoc step[of ?s dr] by (auto simp: sa_loop_snoc)
qed

section \<open>Costs, loads and written-back assignments\<close>

text \<open>
  The cut to 64 bits is compatible with sums and differences, so a total kept up to date
  step by step is the total computed afresh.
\<close>

lemma int64_mod: "int64 x mod 18446744073709551616 = x mod 18446744073709551616"
proof -
  have "int64 x = (x + 9223372036854775808) mod 18446744073709551616 - 9223372036854775808"
    by (simp add: int64_def)
  then have "int64 x mod 18446744073709551616
      = ((x + 9223372036854775808) mod 18446744073709551616 - 9223372036854775808)
          mod 18446744073709551616" by simp
  also have "\<dots> = (x + 9223372036854775808 - 9223372036854775808) mod 18446744073709551616"
    by (rule mod_diff_left_eq)
  finally show ?thesis by simp
qed

lemma int64_cong:
  assumes "x mod 18446744073709551616 = y mod 18446744073709551616"
  shows "int64 x = int64 y"
proof -
  have "(x + 9223372036854775808) mod 18446744073709551616
      = (y + 9223372036854775808) mod 18446744073709551616"
    using assms by (rule mod_add_cong) simp
  then show ?thesis by (simp add: int64_def)
qed

lemma int64_add_left: "int64 (int64 a + b) = int64 (a + b)"
  by (rule int64_cong) (rule mod_add_cong[OF int64_mod refl])

lemma int64_add_right: "int64 (a + int64 b) = int64 (a + b)"
  by (rule int64_cong) (rule mod_add_cong[OF refl int64_mod])

lemma int64_diff_left: "int64 (int64 a - b) = int64 (a - b)"
  by (rule int64_cong) (rule mod_diff_cong[OF int64_mod refl])

lemma int64_diff_right: "int64 (a - int64 b) = int64 (a - b)"
  by (rule int64_cong) (rule mod_diff_cong[OF refl int64_mod])

lemma int64_idem: "int64 (int64 a) = int64 a"
  by (rule int64_cong) (rule int64_mod)

lemma int64_0: "int64 0 = 0"
  by (simp add: int64_def)

lemma fold_add_sum64:
  fixes f :: "'a \<Rightarrow> int"
  shows "fold (\<lambda>t total. int64 (total + int64 (f t))) ts (int64 a) = int64 (a + sum_list (map f ts))"
proof (induction ts arbitrary: a)
  case Nil
  show ?case by simp
next
  case (Cons t ts)
  have "int64 (int64 a + int64 (f t)) = int64 (a + f t)"
    by (simp only: int64_add_left int64_add_right)
  then show ?case using Cons[of "a + f t"] by (simp add: add.assoc)
qed

lemma calculateTotalCost_sum:
  "calculateTotalCost dist_t ts
     = int64 (\<Sum>t\<leftarrow>ts. dist_t (start_node t) (end_node t) * demand t)"
  using fold_add_sum64[of "\<lambda>t. dist_t (start_node t) (end_node t) * demand t" ts 0]
  by (simp add: calculateTotalCost_def int64_0)

lemma calculateTotalCost_core:
  assumes "map core ts = map core ts'"
  shows "calculateTotalCost dist_t ts = calculateTotalCost dist_t ts'"
proof -
  have e: "map (\<lambda>t. dist_t (start_node t) (end_node t) * demand t) us
      = map (\<lambda>(s, d, e). dist_t s e * d) (map core us)" for us
    by (simp add: core_def)
  show ?thesis unfolding calculateTotalCost_sum e assms ..
qed

lemma load_core:
  assumes "map core ts = map core ts'"
  shows "load ts i = load ts' i"
proof -
  have e: "map (\<lambda>t. if end_node t = i then demand t else 0) us
      = map (\<lambda>(s, d, e). if e = i then d else 0) (map core us)" for us
    by (simp add: core_def)
  show ?thesis unfolding load_def e assms ..
qed

lemma sum_list_update_int:
  fixes xs :: "int list"
  assumes "i < length xs"
  shows "sum_list (xs[i := x]) = sum_list xs - xs ! i + x"
  using assms
proof (induction xs arbitrary: i)
  case Nil
  then show ?case by simp
next
  case (Cons y ys)
  then show ?case by (cases i) simp_all
qed

lemma sum_list_map_update:
  fixes f :: "'a \<Rightarrow> int"
  assumes "i < length ts"
  shows "sum_list (map f (ts[i := t])) = sum_list (map f ts) - f (ts ! i) + f t"
  using sum_list_update_int[of i "map f ts" "f t"] assms by (simp add: map_update)

lemma int64_move:
  "int64 (int64 S + int64 (int64 pn - int64 po)) = int64 (S - po + pn)"
proof -
  have "int64 (int64 S + int64 (int64 pn - int64 po)) = int64 (S + (pn - po))"
    by (simp only: int64_add_left int64_add_right int64_diff_left int64_diff_right)
  then show ?thesis by (simp add: algebra_simps)
qed

lemma calculateTotalCost_move:
  assumes "i < length ts"
  shows "calculateTotalCost dist_t (ts[i := (ts ! i)\<lparr>end_node := e, migration_cost := m\<rparr>]) =
     int64 (calculateTotalCost dist_t ts + cost_diff_of dist_t (ts ! i) e)"
proof -
  let ?f = "\<lambda>t. dist_t (start_node t) (end_node t) * demand t"
  have "sum_list (map ?f (ts[i := (ts ! i)\<lparr>end_node := e, migration_cost := m\<rparr>]))
      = sum_list (map ?f ts) - ?f (ts ! i) + dist_t (start_node (ts ! i)) e * demand (ts ! i)"
    using sum_list_map_update[OF assms, of ?f] by simp
  then show ?thesis
    unfolding calculateTotalCost_sum cost_diff_of_def by (simp only: int64_move)
qed

lemma load_update:
  assumes "i < length ts"
  shows "load (ts[i := t]) j =
     load ts j - (if end_node (ts ! i) = j then demand (ts ! i) else 0)
       + (if end_node t = j then demand t else 0)"
  unfolding load_def using sum_list_map_update[OF assms] by simp

lemma written_back_length:
  "length (written_back dist_t best ts) = min (length ts) (length best)"
  by (simp add: written_back_def)

lemma written_back_nth:
  assumes "j < length ts" "j < length best"
  shows "written_back dist_t best ts ! j =
     (ts ! j)\<lparr>end_node := best ! j,
       migration_cost := int32 (dist_t (start_node (ts ! j)) (best ! j) * demand (ts ! j))\<rparr>"
  using assms by (simp add: written_back_def)

lemma written_back_core_self:
  "map core (written_back dist_t (map end_node ts) ts) = map core ts"
  by (rule nth_equalityI) (simp_all add: written_back_length written_back_nth core_def)

lemma written_back_ends:
  assumes "length best = length ts"
  shows "map end_node (written_back dist_t best ts) = best"
  using assms by (intro nth_equalityI) (simp_all add: written_back_length written_back_nth)

lemma written_back_update:
  "written_back dist_t best (ts[i := (ts ! i)\<lparr>end_node := e, migration_cost := m\<rparr>])
     = written_back dist_t best ts"
proof (rule nth_equalityI)
  show "length (written_back dist_t best (ts[i := (ts ! i)\<lparr>end_node := e, migration_cost := m\<rparr>]))
      = length (written_back dist_t best ts)"
    by (simp add: written_back_length)
next
  fix j assume "j < length (written_back dist_t best (ts[i := (ts ! i)\<lparr>end_node := e, migration_cost := m\<rparr>]))"
  then have j: "j < length ts" "j < length best" by (simp_all add: written_back_length)
  show "written_back dist_t best (ts[i := (ts ! i)\<lparr>end_node := e, migration_cost := m\<rparr>]) ! j
      = written_back dist_t best ts ! j"
    using j by (cases "j = i") (simp_all add: written_back_nth)
qed

section \<open>The best assignment and its cost\<close>

lemma best_tasks_init:
  "map core (best_tasks dist_t (sa_init dist_t nodes tasks)) = map core tasks"
  by (simp add: best_tasks_def sa_init_def written_back_core_self)

lemma best_tasks_cool: "best_tasks dist_t (cool s) = best_tasks dist_t s"
  by (simp add: best_tasks_def cool_fields)

lemma best_tasks_move:
  "best_tasks dist_t (sa_move dist_t i e c s) =
     (if int64 (current_cost s + c) < best_cost s
      then written_back dist_t (map end_node (sa_tasks (sa_move dist_t i e c s)))
             (sa_tasks (sa_move dist_t i e c s))
      else best_tasks dist_t s)"
  by (simp add: best_tasks_def sa_move_fields written_back_update)

lemma best_tasks_move_core:
  "map core (best_tasks dist_t (sa_move dist_t i e c s)) =
     (if int64 (current_cost s + c) < best_cost s then map core (sa_tasks (sa_move dist_t i e c s))
      else map core (best_tasks dist_t s))"
  by (simp add: best_tasks_move written_back_core_self)

lemma cost_inv_step:
  assumes cur: "current_cost s = calculateTotalCost dist_t (sa_tasks s)"
    and best: "best_cost s = calculateTotalCost dist_t (best_tasks dist_t s)"
    and ne: "sa_tasks s \<noteq> []" and n: "0 < n"
  shows "current_cost (sa_iteration n dist_t dr s)
           = calculateTotalCost dist_t (sa_tasks (sa_iteration n dist_t dr s)) \<and>
         best_cost (sa_iteration n dist_t dr s)
           = calculateTotalCost dist_t (best_tasks dist_t (sa_iteration n dist_t dr s))"
  using ne n
proof (cases rule: sa_iteration_cases[where dist_t=dist_t and dr=dr and n=n and s=s])
  case skip
  then show ?thesis using cur best by simp
next
  case reject
  then show ?thesis using cur best by (simp add: cool_fields best_tasks_cool)
next
  case (move i e)
  define c where "c = cost_diff_of dist_t (sa_tasks s ! i) e"
  let ?s' = "sa_move dist_t i e c s"
  have it: "sa_iteration n dist_t dr s = cool ?s'" using move(6) by (simp add: c_def)
  have cur': "current_cost ?s' = calculateTotalCost dist_t (sa_tasks ?s')"
    using cur calculateTotalCost_move[OF move(1), where dist_t=dist_t and e=e]
    by (simp add: sa_move_fields c_def)
  have best': "best_cost ?s' = calculateTotalCost dist_t (best_tasks dist_t ?s')"
  proof (cases "int64 (current_cost s + c) < best_cost s")
    case True
    then have "map core (best_tasks dist_t ?s') = map core (sa_tasks ?s')"
      by (simp add: best_tasks_move_core)
    from calculateTotalCost_core[OF this] show ?thesis
      using True cur' by (simp add: sa_move_fields min_def)
  next
    case False
    then have "best_tasks dist_t ?s' = best_tasks dist_t s" by (simp add: best_tasks_move)
    then show ?thesis using False best by (simp add: sa_move_fields min_def)
  qed
  show ?thesis using cur' best' by (simp add: it cool_fields best_tasks_cool)
qed

lemma best_cost_step:
  assumes ne: "sa_tasks s \<noteq> []" and n: "0 < n"
  shows "best_cost (sa_iteration n dist_t dr s) \<le> best_cost s"
  using ne n
  by (cases rule: sa_iteration_cases[where dist_t=dist_t and dr=dr and n=n and s=s])
     (simp_all add: cool_fields sa_move_fields)

lemma best_length_step:
  assumes len: "length (best_assignment s) = length (sa_tasks s)"
    and ne: "sa_tasks s \<noteq> []" and n: "0 < n"
  shows "length (best_assignment (sa_iteration n dist_t dr s))
       = length (sa_tasks (sa_iteration n dist_t dr s))"
  using ne n
  by (cases rule: sa_iteration_cases[where dist_t=dist_t and dr=dr and n=n and s=s])
     (simp_all add: cool_fields sa_move_fields len)

text \<open>
  The best cost is never above the current cost, and after an iteration the best cost
  and assignment are those before it or those of the state it leads to.
\<close>

lemma best_le_current_step:
  assumes "best_cost s \<le> current_cost s" and ne: "sa_tasks s \<noteq> []" and n: "0 < n"
  shows "best_cost (sa_iteration n dist_t dr s) \<le> current_cost (sa_iteration n dist_t dr s)"
  using ne n
  by (cases rule: sa_iteration_cases[where dist_t=dist_t and dr=dr and n=n and s=s])
     (simp_all add: cool_fields sa_move_fields assms(1))

lemma best_attained_step:
  assumes ne: "sa_tasks s \<noteq> []" and n: "0 < n"
  shows "(best_cost (sa_iteration n dist_t dr s) = best_cost s \<and>
          best_assignment (sa_iteration n dist_t dr s) = best_assignment s) \<or>
         (best_cost (sa_iteration n dist_t dr s) = current_cost (sa_iteration n dist_t dr s) \<and>
          best_assignment (sa_iteration n dist_t dr s)
            = map end_node (sa_tasks (sa_iteration n dist_t dr s)))"
  using ne n
  by (cases rule: sa_iteration_cases[where dist_t=dist_t and dr=dr and n=n and s=s])
     (simp_all add: cool_fields sa_move_fields min_def)

section \<open>The write-back of the best assignment\<close>

lemma load_Nil: "load [] i = 0"
  by (simp add: load_def)

lemma load_take_Suc:
  assumes "k < length ts"
  shows "load (take (Suc k) ts) i =
     load (take k ts) i + (if end_node (ts ! k) = i then demand (ts ! k) else 0)"
  using assms by (simp add: load_def take_Suc_conv_app_nth)

lemma splice_step:
  assumes "k < length ts" "length wb = length ts"
  shows "(take k wb @ drop k ts)[k := wb ! k] = take (Suc k) wb @ drop (Suc k) ts"
proof (rule nth_equalityI)
  show "length ((take k wb @ drop k ts)[k := wb ! k]) = length (take (Suc k) wb @ drop (Suc k) ts)"
    using assms by simp
next
  fix j assume "j < length ((take k wb @ drop k ts)[k := wb ! k])"
  then have j: "j < length ts" using assms by simp
  consider "j < k" | "j = k" | "k < j" by linarith
  then show "(take k wb @ drop k ts)[k := wb ! k] ! j = (take (Suc k) wb @ drop (Suc k) ts) ! j"
  proof cases
    case 1
    then show ?thesis using assms by (simp add: nth_append)
  next
    case 2
    then show ?thesis using assms by (simp add: nth_append)
  next
    case 3
    then show ?thesis using assms j by (simp add: nth_append)
  qed
qed

lemma restore_task_eq:
  "restore_task dist_t best k (nd, tk) =
     (add_usage (best ! k) (demand (tk ! k)) nd,
      tk[k := (tk ! k)\<lparr>end_node := best ! k,
           migration_cost := int32 (dist_t (start_node (tk ! k)) (best ! k) * demand (tk ! k))\<rparr>])"
  by (simp add: restore_task_def Let_def)

lemma restore_prefix_tasks:
  assumes "k \<le> length ts" and len: "length best = length ts"
  shows "snd (fold (restore_task dist_t best) [0..<k] (nodes, ts)) =
     take k (written_back dist_t best ts) @ drop k ts"
  using assms(1)
proof (induction k)
  case 0
  show ?case by simp
next
  case (Suc k)
  let ?wb = "written_back dist_t best ts"
  let ?f = "fold (restore_task dist_t best) [0..<k] (nodes, ts)"
  have k: "k < length ts" "k < length best" using Suc.prems len by simp_all
  have wlen: "length ?wb = length ts" using len by (simp add: written_back_length)
  have ih: "snd ?f = take k ?wb @ drop k ts" using Suc by simp
  have at_k: "(take k ?wb @ drop k ts) ! k = ts ! k"
    using k wlen by (simp add: nth_append)
  obtain nd tk where f: "?f = (nd, tk)" by (cases ?f)
  have tk: "tk = take k ?wb @ drop k ts" using ih f by simp
  have "tk ! k = ts ! k" using at_k tk by simp
  then have "snd (restore_task dist_t best k ?f) = (snd ?f)[k := ?wb ! k]"
    using k by (simp add: f restore_task_eq written_back_nth)
  then show ?case
    using ih splice_step[OF k(1) wlen] by simp
qed

lemma restore_tasks:
  assumes "length (best_assignment s) = length (sa_tasks s)"
  shows "snd (restore n dist_t s) = best_tasks dist_t s"
  using restore_prefix_tasks[OF le_refl assms, of dist_t "reset_usage n (sa_nodes s)"] assms
  by (simp add: restore_def best_tasks_def written_back_length)

section \<open>The best cost along the loop\<close>

lemma optimize_SomeD:
  assumes "optimizeAllocationSA n dist_t draws (nodes, tasks) = Some r"
  shows "r = restore n dist_t (sa_loop n dist_t draws (sa_init dist_t nodes tasks))"
    and "draws = [] \<or> (tasks \<noteq> [] \<and> 0 < n)"
  using assms by (auto simp: optimizeAllocationSA_def split: if_splits)

lemma sa_loop_take_invariant:
  assumes some: "draws = [] \<or> (sa_tasks s \<noteq> [] \<and> 0 < n)"
    and init: "P s"
    and step: "\<And>s dr. P s \<Longrightarrow> sa_tasks s \<noteq> [] \<Longrightarrow> 0 < n \<Longrightarrow> P (sa_iteration n dist_t dr s)"
  shows "P (sa_loop n dist_t (take k draws) s)"
proof (cases "draws = []")
  case True
  then show ?thesis using init by (simp add: sa_loop_Nil)
next
  case False
  then have ne: "sa_tasks s \<noteq> []" and n: "0 < n" using some by auto
  show ?thesis
    using sa_loop_invariant[of P s n dist_t "take k draws", OF init ne _ n] step n by blast
qed

lemma sa_loop_take_nonempty:
  assumes some: "draws = [] \<or> (sa_tasks s \<noteq> [] \<and> 0 < n)" and k: "k < length draws"
  shows "sa_tasks (sa_loop n dist_t (take k draws) s) \<noteq> [] \<and> 0 < n"
proof -
  have ne: "sa_tasks s \<noteq> []" and n: "0 < n" using some k by auto
  show ?thesis
    using sa_loop_invariant[of "\<lambda>s. True" s n dist_t "take k draws", OF _ ne _ n] n by blast
qed

lemma sa_loop_take_Suc:
  assumes "k < length draws"
  shows "sa_loop n dist_t (take (Suc k) draws) s
       = sa_iteration n dist_t (draws ! k) (sa_loop n dist_t (take k draws) s)"
  using assms by (simp add: take_Suc_conv_app_nth sa_loop_snoc)

lemma sa_init_fields:
  "sa_nodes (sa_init dist_t nodes tasks) = nodes"
  "sa_tasks (sa_init dist_t nodes tasks) = tasks"
  "current_cost (sa_init dist_t nodes tasks) = calculateTotalCost dist_t tasks"
  "best_cost (sa_init dist_t nodes tasks) = calculateTotalCost dist_t tasks"
  "best_assignment (sa_init dist_t nodes tasks) = map end_node tasks"
  "current_temp (sa_init dist_t nodes tasks) = T_start"
  by (simp_all add: sa_init_def)

text \<open>
  Claim C5. In a run of the optimizer the best cost never rises from one iteration to the
  next and is never above the total cost of the assignment the optimizer started from (its
  initial value, the cost of the planner's assignment). It is the best ever: after every
  iteration it is at most the total cost of every assignment the loop has been in so far,
  and it is the total cost of one of them, whose end nodes are the best assignment. The
  end nodes written back at the end are the best assignment, and their total cost is the
  best cost.
\<close>

theorem best_cost_monotone_and_restored:
  assumes run: "optimizeAllocationSA n dist_t draws (nodes, tasks) = Some (nodes', tasks')"
  shows "(\<forall>k<length draws.
            best_cost (sa_loop n dist_t (take (Suc k) draws) (sa_init dist_t nodes tasks))
            \<le> best_cost (sa_loop n dist_t (take k draws) (sa_init dist_t nodes tasks))) \<and>
         (\<forall>k\<le>length draws.
            best_cost (sa_loop n dist_t (take k draws) (sa_init dist_t nodes tasks))
            \<le> calculateTotalCost dist_t tasks) \<and>
         (\<forall>k\<le>length draws. \<forall>j\<le>k.
            best_cost (sa_loop n dist_t (take k draws) (sa_init dist_t nodes tasks))
            \<le> calculateTotalCost dist_t
                 (sa_tasks (sa_loop n dist_t (take j draws) (sa_init dist_t nodes tasks)))) \<and>
         (\<forall>k\<le>length draws. \<exists>j\<le>k.
            best_cost (sa_loop n dist_t (take k draws) (sa_init dist_t nodes tasks))
            = calculateTotalCost dist_t
                (sa_tasks (sa_loop n dist_t (take j draws) (sa_init dist_t nodes tasks))) \<and>
            best_assignment (sa_loop n dist_t (take k draws) (sa_init dist_t nodes tasks))
            = map end_node
                (sa_tasks (sa_loop n dist_t (take j draws) (sa_init dist_t nodes tasks)))) \<and>
         map end_node tasks' = best_assignment (sa_loop n dist_t draws (sa_init dist_t nodes tasks)) \<and>
         calculateTotalCost dist_t tasks'
           = best_cost (sa_loop n dist_t draws (sa_init dist_t nodes tasks))"
proof -
  let ?s0 = "sa_init dist_t nodes tasks"
  let ?st = "\<lambda>k. sa_loop n dist_t (take k draws) ?s0"
  note r = optimize_SomeD[OF run]
  have some: "draws = [] \<or> (sa_tasks ?s0 \<noteq> [] \<and> 0 < n)" using r(2) by (simp add: sa_init_fields)
  define P where "P = (\<lambda>s. current_cost s = calculateTotalCost dist_t (sa_tasks s) \<and>
      best_cost s = calculateTotalCost dist_t (best_tasks dist_t s) \<and>
      best_cost s \<le> current_cost s \<and>
      length (best_assignment s) = length (sa_tasks s))"
  have P0: "P ?s0"
    using calculateTotalCost_core[OF best_tasks_init[of dist_t nodes tasks], of dist_t]
    by (simp add: P_def sa_init_fields)
  have Pstep: "P (sa_iteration n dist_t dr s)" if "P s" "sa_tasks s \<noteq> []" "0 < n" for s dr
    using that cost_inv_step[of s dist_t n dr] best_length_step[of s n dist_t dr]
      best_le_current_step[of s n dist_t dr]
    by (simp add: P_def)
  have Pk: "P (?st k)" for k
    using sa_loop_take_invariant[of draws ?s0 n P dist_t k, OF some P0] Pstep by blast
  have step: "sa_tasks (?st k) \<noteq> [] \<and> 0 < n"
    and next_st: "?st (Suc k) = sa_iteration n dist_t (draws ! k) (?st k)"
    if "k < length draws" for k
    using sa_loop_take_nonempty[OF some that, of dist_t] sa_loop_take_Suc[OF that]
    by simp_all
  have mono: "best_cost (?st (Suc k)) \<le> best_cost (?st k)" if "k < length draws" for k
    using step[OF that] best_cost_step[of "?st k" n dist_t "draws ! k"]
    by (simp add: next_st[OF that])
  have chain: "best_cost (?st k) \<le> best_cost (?st j)" if "j \<le> k" "k \<le> length draws" for j k
    using that
  proof (induction k)
    case 0
    then show ?case by simp
  next
    case (Suc k)
    show ?case
    proof (cases "j = Suc k")
      case True
      then show ?thesis by simp
    next
      case False
      then have "best_cost (?st k) \<le> best_cost (?st j)" using Suc by simp
      then show ?thesis using mono[of k] Suc.prems by simp
    qed
  qed
  have visited: "best_cost (?st k) \<le> calculateTotalCost dist_t (sa_tasks (?st j))"
    if "j \<le> k" "k \<le> length draws" for j k
    using chain[OF that] Pk[of j] by (simp add: P_def)
  have bound: "best_cost (?st k) \<le> calculateTotalCost dist_t tasks" if "k \<le> length draws" for k
    using visited[of 0 k] that by (simp add: sa_loop_Nil sa_init_fields)
  have attained: "\<exists>j\<le>k. best_cost (?st k) = calculateTotalCost dist_t (sa_tasks (?st j)) \<and>
      best_assignment (?st k) = map end_node (sa_tasks (?st j))" if "k \<le> length draws" for k
    using that
  proof (induction k)
    case 0
    show ?case by (simp add: sa_loop_Nil sa_init_fields)
  next
    case (Suc k)
    have k: "k < length draws" using Suc.prems by simp
    from Suc.IH k obtain j where j: "j \<le> k"
      "best_cost (?st k) = calculateTotalCost dist_t (sa_tasks (?st j))"
      "best_assignment (?st k) = map end_node (sa_tasks (?st j))"
      by auto
    from best_attained_step[of "?st k" n dist_t "draws ! k"] step[OF k]
    consider "best_cost (?st (Suc k)) = best_cost (?st k)"
        "best_assignment (?st (Suc k)) = best_assignment (?st k)"
      | "best_cost (?st (Suc k)) = current_cost (?st (Suc k))"
        "best_assignment (?st (Suc k)) = map end_node (sa_tasks (?st (Suc k)))"
      unfolding next_st[OF k] by blast
    then show ?case
    proof cases
      case 1
      then show ?thesis using j by (intro exI[of _ j]) simp
    next
      case 2
      then show ?thesis using Pk[of "Suc k"] by (intro exI[of _ "Suc k"]) (simp add: P_def)
    qed
  qed
  let ?sf = "sa_loop n dist_t draws ?s0"
  have Pf: "P ?sf" using Pk[of "length draws"] by simp
  have len: "length (best_assignment ?sf) = length (sa_tasks ?sf)" using Pf by (simp add: P_def)
  have t': "tasks' = best_tasks dist_t ?sf"
    using r(1)[symmetric] restore_tasks[OF len, of n dist_t] by simp
  have "map end_node tasks' = best_assignment ?sf"
    unfolding t' best_tasks_def by (rule written_back_ends[OF len])
  moreover have "calculateTotalCost dist_t tasks' = best_cost ?sf"
    using Pf by (simp add: P_def t')
  ultimately show ?thesis using mono bound visited attained by blast
qed

lemma ex_planned_length: "length (snd ex_planned) = 2"
  by code_simp

lemma ex_run:
  "optimizeAllocationSA 3 ex_dist ex_draws (fst ex_planned, snd ex_planned)
   = Some (fst (restore 3 ex_dist (sa_loop 3 ex_dist ex_draws
              (sa_init ex_dist (fst ex_planned) (snd ex_planned)))),
           snd (restore 3 ex_dist (sa_loop 3 ex_dist ex_draws
              (sa_init ex_dist (fst ex_planned) (snd ex_planned)))))"
proof -
  have "snd ex_planned \<noteq> []" using ex_planned_length by auto
  then show ?thesis by (simp add: optimizeAllocationSA_def case_prod_beta)
qed

theorem best_cost_monotone_and_restored_witness:
  "best_cost (sa_loop 3 ex_dist (take 2 ex_draws) (sa_init ex_dist (fst ex_planned) (snd ex_planned)))
     \<le> best_cost (sa_loop 3 ex_dist (take 1 ex_draws) (sa_init ex_dist (fst ex_planned) (snd ex_planned))) \<and>
   best_cost (sa_loop 3 ex_dist (take 2 ex_draws) (sa_init ex_dist (fst ex_planned) (snd ex_planned)))
     \<le> calculateTotalCost ex_dist (snd ex_planned) \<and>
   best_cost (sa_loop 3 ex_dist (take 2 ex_draws) (sa_init ex_dist (fst ex_planned) (snd ex_planned)))
     \<le> calculateTotalCost ex_dist (sa_tasks
           (sa_loop 3 ex_dist (take 1 ex_draws) (sa_init ex_dist (fst ex_planned) (snd ex_planned)))) \<and>
   map end_node (snd (restore 3 ex_dist (sa_loop 3 ex_dist ex_draws
       (sa_init ex_dist (fst ex_planned) (snd ex_planned)))))
     = best_assignment (sa_loop 3 ex_dist ex_draws (sa_init ex_dist (fst ex_planned) (snd ex_planned))) \<and>
   calculateTotalCost ex_dist (snd (restore 3 ex_dist (sa_loop 3 ex_dist ex_draws
       (sa_init ex_dist (fst ex_planned) (snd ex_planned)))))
     = best_cost (sa_loop 3 ex_dist ex_draws (sa_init ex_dist (fst ex_planned) (snd ex_planned))) \<and>
   calculateTotalCost ex_dist (snd ex_planned) = 9 \<and>
   calculateTotalCost ex_dist (sa_tasks
       (sa_loop 3 ex_dist (take 1 ex_draws) (sa_init ex_dist (fst ex_planned) (snd ex_planned)))) = 12 \<and>
   best_cost (sa_loop 3 ex_dist ex_draws (sa_init ex_dist (fst ex_planned) (snd ex_planned))) = 6 \<and>
   best_assignment (sa_loop 3 ex_dist ex_draws (sa_init ex_dist (fst ex_planned) (snd ex_planned)))
     = [3, 2]"
proof -
  let ?st = "\<lambda>k. sa_loop 3 ex_dist (take k ex_draws) (sa_init ex_dist (fst ex_planned) (snd ex_planned))"
  have len: "length ex_draws = 1024" by (simp add: ex_draws_def)
  have v1: "calculateTotalCost ex_dist (snd ex_planned) = 9" by code_simp
  have v2: "best_cost (sa_loop 3 ex_dist ex_draws
      (sa_init ex_dist (fst ex_planned) (snd ex_planned))) = 6" by code_simp
  have v3: "calculateTotalCost ex_dist (sa_tasks (?st 1)) = 12" by code_simp
  have v4: "best_assignment (sa_loop 3 ex_dist ex_draws
      (sa_init ex_dist (fst ex_planned) (snd ex_planned))) = [3, 2]" by code_simp
  note t = best_cost_monotone_and_restored[OF ex_run]
  have l: "(1::nat) < length ex_draws" "(2::nat) \<le> length ex_draws" "(1::nat) \<le> 2"
    using len by simp_all
  have a: "best_cost (?st (Suc 1)) \<le> best_cost (?st 1)"
    using t l(1) by blast
  have b: "best_cost (?st 2) \<le> calculateTotalCost ex_dist (snd ex_planned)"
    using t l(2) by blast
  have c: "best_cost (?st 2) \<le> calculateTotalCost ex_dist (sa_tasks (?st 1))"
    using t l(2,3) by blast
  show ?thesis using a b c t v1 v2 v3 v4 by (simp add: numeral_2_eq_2)
qed

section \<open>Cooling\<close>

text \<open>
  Claim C8, amended. An iteration whose random target is the node the task is assigned
  to, or is unreachable from its start node, leaves the temperature as it is (the
  source goes on to the next iteration before the cooling step). Every other iteration,
  whether the move is accepted, rejected by the Metropolis test or rejected for
  capacity, multiplies the temperature by the cooling factor and resets it to the
  reheating value when the product is below the floor.
\<close>

theorem sa_iteration_temperature:
  "current_temp (sa_iteration n dist_t (r1, r2, m) s) =
     (if r2 mod n + 1 = end_node (sa_tasks s ! (r1 mod length (sa_tasks s))) \<or>
         dist_t (start_node (sa_tasks s ! (r1 mod length (sa_tasks s)))) (r2 mod n + 1) = INF_val
      then current_temp s
      else if current_temp s * cooling_rate < T_end then T_start * (1 / 2)
      else current_temp s * cooling_rate)"
  by (simp add: sa_iteration_def Let_def cool_temp sa_move_fields)

text \<open>
  In the example the first task is assigned to node 2; an iteration that draws this task
  and node 2 keeps the temperature 2000: it is neither cooled nor reheated.
\<close>

theorem cooling_skipped_counterexample:
  "current_temp (sa_iteration 3 ex_dist (0, 1, False)
      (sa_init ex_dist (fst ex_planned) (snd ex_planned))) = 2000 \<and>
   current_temp (sa_init ex_dist (fst ex_planned) (snd ex_planned)) * cooling_rate = 1998 \<and>
   T_start * (1 / 2) = 1000"
proof -
  have e: "end_node (snd ex_planned ! 0) = 2" by code_simp
  have "sa_iteration 3 ex_dist (0, 1, False) (sa_init ex_dist (fst ex_planned) (snd ex_planned))
      = sa_init ex_dist (fst ex_planned) (snd ex_planned)"
    using e by (simp add: sa_iteration_def Let_def sa_init_fields)
  then show ?thesis by (simp add: sa_init_fields T_start_def cooling_rate_def)
qed

section \<open>Assigned nodes stay reachable\<close>

lemma ends_ok_core:
  assumes "map core ts = map core ts'"
  shows "ends_ok Q ts = ends_ok Q ts'"
proof -
  have e: "ends_ok Q us \<longleftrightarrow> (\<forall>(s, d, e)\<in>set (map core us). Q s e)" for us
    by (auto simp: ends_ok_def core_def)
  show ?thesis unfolding e assms ..
qed

lemma ends_ok_update:
  assumes "ends_ok Q ts" and "Q (start_node t) (end_node t)"
  shows "ends_ok Q (ts[i := t])"
  using assms set_update_subset_insert[of ts i t] by (auto simp: ends_ok_def)

text \<open>
  \<open>Q\<close> is kept by a move of a task to a node of \<open>1..N\<close> that is reachable from its start
  node: this is all the planner and the optimizer ever do to an assignment.
\<close>

lemma place_task_ends:
  assumes Q: "\<forall>s e e'. Q s e' \<longrightarrow> e \<in> {1..n} \<longrightarrow> dist_t s e \<noteq> INF_val \<longrightarrow> Q s e"
    and ok: "ends_ok Q tasks"
  shows "ends_ok Q (snd (place_task n dist_t idx (nodes, tasks)))"
proof (cases "find_best n dist_t nodes (tasks ! idx)")
  case (Pair best mc)
  show ?thesis
  proof (cases best)
    case None
    then show ?thesis using Pair ok by (simp add: place_task_def)
  next
    case (Some b)
    show ?thesis
    proof (cases "idx < length tasks")
      case True
      have f: "b \<in> {1..n}" "dist_t (start_node (tasks ! idx)) b \<noteq> INF_val"
        using find_best_Some(1,2)[OF Pair[unfolded Some]] .
      have "Q (start_node (tasks ! idx)) (end_node (tasks ! idx))"
        using ok True by (simp add: ends_ok_def)
      from Q[rule_format, OF this f] have "ends_ok Q
          (tasks[idx := (tasks ! idx)\<lparr>end_node := b, migration_cost := mc\<rparr>])"
        by (intro ends_ok_update[OF ok]) simp
      then show ?thesis using Pair Some by (simp add: place_task_def Let_def)
    next
      case False
      then show ?thesis using Pair Some ok by (simp add: place_task_def Let_def list_update_beyond)
    qed
  qed
qed

lemma greedy_ends:
  assumes Q: "\<forall>s e e'. Q s e' \<longrightarrow> e \<in> {1..n} \<longrightarrow> dist_t s e \<noteq> INF_val \<longrightarrow> Q s e"
    and "ends_ok Q tasks"
  shows "ends_ok Q (snd (fold (place_task n dist_t) order (nodes, tasks)))"
  using assms(2)
proof (induction order arbitrary: nodes tasks)
  case Nil
  then show ?case by simp
next
  case (Cons idx order)
  obtain nodes' tasks' where st: "place_task n dist_t idx (nodes, tasks) = (nodes', tasks')"
    by (cases "place_task n dist_t idx (nodes, tasks)")
  have "ends_ok Q tasks'"
    using place_task_ends[where Q=Q and idx=idx and nodes=nodes, OF Q Cons.prems] st by simp
  then show ?case using Cons.IH[of tasks' nodes'] st by simp
qed

lemma ends_step:
  assumes Q: "\<forall>s e e'. Q s e' \<longrightarrow> e \<in> {1..n} \<longrightarrow> dist_t s e \<noteq> INF_val \<longrightarrow> Q s e"
    and cur: "ends_ok Q (sa_tasks s)"
    and best: "ends_ok Q (best_tasks dist_t s)"
    and ne: "sa_tasks s \<noteq> []" and n: "0 < n"
  shows "ends_ok Q (sa_tasks (sa_iteration n dist_t dr s)) \<and>
         ends_ok Q (best_tasks dist_t (sa_iteration n dist_t dr s))"
  using ne n
proof (cases rule: sa_iteration_cases[where dist_t=dist_t and dr=dr and n=n and s=s])
  case skip
  then show ?thesis using cur best by simp
next
  case reject
  then show ?thesis using cur best by (simp add: cool_fields best_tasks_cool)
next
  case (move i e)
  define c where "c = cost_diff_of dist_t (sa_tasks s ! i) e"
  let ?s' = "sa_move dist_t i e c s"
  have it: "sa_iteration n dist_t dr s = cool ?s'" using move(6) by (simp add: c_def)
  have "Q (start_node (sa_tasks s ! i)) (end_node (sa_tasks s ! i))"
    using cur move(1) by (simp add: ends_ok_def)
  from Q[rule_format, OF this move(2,4)] have cur': "ends_ok Q (sa_tasks ?s')"
    using ends_ok_update[OF cur] by (simp add: sa_move_fields)
  have best': "ends_ok Q (best_tasks dist_t ?s')"
  proof (cases "int64 (current_cost s + c) < best_cost s")
    case True
    then have "map core (best_tasks dist_t ?s') = map core (sa_tasks ?s')"
      by (simp add: best_tasks_move_core)
    from ends_ok_core[OF this] show ?thesis using cur' by simp
  next
    case False
    then show ?thesis using best by (simp add: best_tasks_move)
  qed
  show ?thesis using cur' best' by (simp add: it cool_fields best_tasks_cool)
qed

text \<open>After the planner and the optimizer, on the tasks as read from the input.\<close>

lemma pipeline_ends:
  assumes Q: "\<forall>s e e'. Q s e' \<longrightarrow> e \<in> {1..n} \<longrightarrow> fst (routing n links) s e \<noteq> INF_val \<longrightarrow> Q s e"
    and init: "ends_ok Q (read_tasks lines)"
    and run: "optimizeAllocationSA n (fst (routing n links)) draws
      (solveAllocationGreedy n (fst (routing n links)) sort_fn (nodes, read_tasks lines))
    = Some (nodes', tasks')"
  shows "ends_ok Q tasks'"
proof -
  let ?D = "fst (routing n links)"
  obtain nodes1 tasks1 where g: "solveAllocationGreedy n ?D sort_fn (nodes, read_tasks lines) = (nodes1, tasks1)"
    by (cases "solveAllocationGreedy n ?D sort_fn (nodes, read_tasks lines)")
  have r1: "ends_ok Q tasks1"
    using greedy_ends[where Q=Q and order="sorted_indices sort_fn (read_tasks lines)"
        and nodes="reset_usage n nodes", OF Q init] g
    by (simp add: solveAllocationGreedy_def)
  let ?s0 = "sa_init ?D nodes1 tasks1"
  note r = optimize_SomeD[OF run[unfolded g]]
  have some: "draws = [] \<or> (sa_tasks ?s0 \<noteq> [] \<and> 0 < n)" using r(2) by (simp add: sa_init_fields)
  define P where "P = (\<lambda>s :: sa_state. ends_ok Q (sa_tasks s) \<and> ends_ok Q (best_tasks ?D s) \<and>
      length (best_assignment s) = length (sa_tasks s))"
  have P0: "P ?s0"
    using r1 ends_ok_core[OF best_tasks_init[of ?D nodes1 tasks1], of Q]
    by (simp add: P_def sa_init_fields)
  have Pstep: "P (sa_iteration n ?D dr s)" if "P s" "sa_tasks s \<noteq> []" "0 < n" for s dr
    using that ends_step[where Q=Q and dist_t="?D" and s=s and n=n and dr=dr, OF Q]
      best_length_step[of s n ?D dr]
    by (simp add: P_def)
  let ?sf = "sa_loop n ?D draws ?s0"
  have Pf: "P ?sf"
    using sa_loop_take_invariant[of draws ?s0 n P ?D "length draws", OF some P0] Pstep by simp
  have len: "length (best_assignment ?sf) = length (sa_tasks ?sf)" using Pf by (simp add: P_def)
  have t': "tasks' = best_tasks ?D ?sf"
    using r(1)[symmetric] restore_tasks[OF len, of n ?D] by simp
  show ?thesis using Pf by (simp add: P_def t')
qed

text \<open>
  Claim C10. After the planner and the optimizer have run on the tasks as read from the
  input, with the distances of the routing tables, every task's end node is reachable
  from its start node: the distance between them is below \<open>INF\<close>.
\<close>

theorem end_nodes_reachable:
  assumes run: "optimizeAllocationSA n (fst (routing n links)) draws
      (solveAllocationGreedy n (fst (routing n links)) sort_fn (nodes, read_tasks lines))
    = Some (nodes', tasks')"
  shows "\<forall>t\<in>set tasks'. fst (routing n links) (start_node t) (end_node t) < INF_val"
proof -
  let ?D = "fst (routing n links)"
  let ?Q = "\<lambda>s e. ?D s e \<noteq> INF_val"
  have "?D s s \<noteq> INF_val" for s
    using routing_diag[of n links s] by (simp add: INF_val_def)
  then have init: "ends_ok ?Q (read_tasks lines)"
    by (auto simp: ends_ok_def read_tasks_def read_task_def)
  have "ends_ok ?Q tasks'"
    using pipeline_ends[where Q="?Q", OF _ init run] by blast
  then have "?D (start_node t) (end_node t) \<noteq> INF_val" if "t \<in> set tasks'" for t
    using that by (simp add: ends_ok_def)
  moreover have "?D (start_node t) (end_node t) \<le> INF_val" for t
    using routing_le by blast
  ultimately show ?thesis by (intro ballI) (simp add: less_le)
qed

theorem end_nodes_reachable_witness:
  "map (\<lambda>t. (start_node t, end_node t, fst (routing 3 ex_links) (start_node t) (end_node t)))
     (snd (restore 3 (fst (routing 3 ex_links)) (sa_loop 3 (fst (routing 3 ex_links)) ex_draws
        (sa_init (fst (routing 3 ex_links))
          (fst (solveAllocationGreedy 3 (fst (routing 3 ex_links)) insertion_sort
                  (ex_nodes, read_tasks [(1, 1, 3), (2, 2, 2)])))
          (snd (solveAllocationGreedy 3 (fst (routing 3 ex_links)) insertion_sort
                  (ex_nodes, read_tasks [(1, 1, 3), (2, 2, 2)])))))))
   = [(1, 3, 2), (2, 2, 0)] \<and>
   list_all (\<lambda>t. fst (routing 3 ex_links) (start_node t) (end_node t) < INF_val)
     (snd (restore 3 (fst (routing 3 ex_links)) (sa_loop 3 (fst (routing 3 ex_links)) ex_draws
        (sa_init (fst (routing 3 ex_links))
          (fst (solveAllocationGreedy 3 (fst (routing 3 ex_links)) insertion_sort
                  (ex_nodes, read_tasks [(1, 1, 3), (2, 2, 2)])))
          (snd (solveAllocationGreedy 3 (fst (routing 3 ex_links)) insertion_sort
                  (ex_nodes, read_tasks [(1, 1, 3), (2, 2, 2)])))))))"
proof -
  let ?D = "fst (routing 3 ex_links)"
  let ?g = "solveAllocationGreedy 3 ?D insertion_sort (ex_nodes, read_tasks [(1, 1, 3), (2, 2, 2)])"
  let ?r = "restore 3 ?D (sa_loop 3 ?D ex_draws (sa_init ?D (fst ?g) (snd ?g)))"
  have "length (snd ?g) = 2" by code_simp
  then have "snd ?g \<noteq> []" by auto
  then have run: "optimizeAllocationSA 3 ?D ex_draws ?g = Some (fst ?r, snd ?r)"
    by (simp add: optimizeAllocationSA_def case_prod_beta)
  have v: "map (\<lambda>t. (start_node t, end_node t, ?D (start_node t) (end_node t))) (snd ?r)
      = [(1, 3, 2), (2, 2, 0)]" by code_simp
  from end_nodes_reachable[OF run] v show ?thesis by (simp add: list_all_iff)
qed

section \<open>Usage and capacity\<close>

lemma add_usage_apply:
  "current_usage (add_usage b x nodes i) =
     (if i = b then int32 (current_usage (nodes i) + x) else current_usage (nodes i))"
  "capacity (add_usage b x nodes i) = capacity (nodes i)"
  by (simp_all add: add_usage_def)

lemma reset_usage_apply:
  "current_usage (reset_usage n nodes i) = (if 1 \<le> i \<and> i \<le> n then 0 else current_usage (nodes i))"
  "capacity (reset_usage n nodes i) = capacity (nodes i)"
  by (simp_all add: reset_usage_def)

lemma place_task_capacity:
  "capacity (fst (place_task n dist_t idx (nodes, tasks)) i) = capacity (nodes i)"
  by (simp add: place_task_def Let_def add_usage_apply split: prod.splits option.splits)

lemma place_task_length:
  "length (snd (place_task n dist_t idx (nodes, tasks))) = length tasks"
  by (simp add: place_task_def Let_def split: prod.splits option.splits)

lemma place_task_other:
  assumes "j \<noteq> idx"
  shows "snd (place_task n dist_t idx (nodes, tasks)) ! j = tasks ! j"
  using assms by (simp add: place_task_def Let_def split: prod.splits option.splits)

lemma place_task_demands:
  "map demand (snd (place_task n dist_t idx (nodes, tasks))) = map demand tasks"
proof -
  have "snd (place_task n dist_t idx (nodes, tasks)) = tasks \<or>
      (\<exists>e m. snd (place_task n dist_t idx (nodes, tasks))
         = tasks[idx := (tasks ! idx)\<lparr>end_node := e, migration_cost := m\<rparr>])"
    by (auto simp: place_task_def Let_def split: prod.splits option.splits)
  then show ?thesis
    by (cases "idx < length tasks") (auto simp: list_eq_iff_nth_eq nth_list_update)
qed

text \<open>
  The planner's step on a state whose counters are between 0 and the capacities, for a
  task whose demand is not negative and fits on top of every capacity: the sum of the
  test is exact, the counter of the chosen node grows by the demand, and the state after
  the step is of the same kind.
\<close>

lemma place_task_usage:
  assumes w: "within_capacity n nodes" and nn: "\<forall>i. 0 \<le> current_usage (nodes i)"
    and d: "0 \<le> demand (tasks ! idx)"
    and mag: "\<forall>i\<in>{1..n}. capacity (nodes i) + demand (tasks ! idx) \<le> 2147483647"
  shows "current_usage (fst (place_task n dist_t idx (nodes, tasks)) i) =
           current_usage (nodes i) +
           (if fst (find_best n dist_t nodes (tasks ! idx)) = Some i then demand (tasks ! idx) else 0)"
    and "within_capacity n (fst (place_task n dist_t idx (nodes, tasks)))"
proof -
  let ?t = "tasks ! idx"
  obtain best mc where fb: "find_best n dist_t nodes ?t = (best, mc)"
    by (cases "find_best n dist_t nodes ?t")
  have "current_usage (fst (place_task n dist_t idx (nodes, tasks)) i) =
           current_usage (nodes i) + (if best = Some i then demand ?t else 0) \<and>
        within_capacity n (fst (place_task n dist_t idx (nodes, tasks)))"
  proof (cases best)
    case None
    then show ?thesis using fb w by (simp add: place_task_def)
  next
    case (Some b)
    note p = find_best_Some[OF fb[unfolded Some]]
    have ub: "current_usage (nodes b) \<le> capacity (nodes b)"
      using w p(1) unfolding within_capacity_def by blast
    have "fits32 (current_usage (nodes b) + demand ?t)"
      using ub nn[rule_format, of b] d mag p(1) unfolding fits32_def by force
    then have ex: "int32 (current_usage (nodes b) + demand ?t) = current_usage (nodes b) + demand ?t"
      by (rule fits32_int32)
    have st: "fst (place_task n dist_t idx (nodes, tasks)) = add_usage b (demand ?t) nodes"
      using fb Some by (simp add: place_task_def Let_def)
    have "within_capacity n (add_usage b (demand ?t) nodes)"
      using w p(3) unfolding within_capacity_def ex by (simp add: add_usage_apply ex)
    then show ?thesis using Some by (auto simp: st add_usage_apply ex)
  qed
  then show "current_usage (fst (place_task n dist_t idx (nodes, tasks)) i) =
           current_usage (nodes i) +
           (if fst (find_best n dist_t nodes (tasks ! idx)) = Some i then demand (tasks ! idx) else 0)"
    and "within_capacity n (fst (place_task n dist_t idx (nodes, tasks)))"
    using fb by simp_all
qed

lemma demands_of_map:
  assumes "map demand ts' = map demand ts" and "t \<in> set ts'"
  obtains t0 where "t0 \<in> set ts" "demand t0 = demand t"
proof -
  have "demand ` set ts' = demand ` set ts"
    using arg_cong[OF assms(1), of set] by (simp only: set_map)
  then have "demand t \<in> demand ` set ts" using assms(2) by blast
  then show ?thesis using that by auto
qed

lemma planner_ok_static:
  assumes "planner_ok n nodes tasks"
    and w: "within_capacity n nodes'" and nn: "\<forall>i. 0 \<le> current_usage (nodes' i)"
    and cap: "\<forall>i. capacity (nodes' i) = capacity (nodes i)"
    and dm: "map demand tasks' = map demand tasks"
  shows "planner_ok n nodes' tasks'"
  unfolding planner_ok_def
proof (intro conjI ballI)
  show "within_capacity n nodes'" by (rule w)
  show "\<forall>i. 0 \<le> current_usage (nodes' i)" by (rule nn)
next
  fix t assume "t \<in> set tasks'"
  then obtain t0 where "t0 \<in> set tasks" "demand t0 = demand t" by (rule demands_of_map[OF dm])
  then show "0 \<le> demand t" using assms(1) unfolding planner_ok_def by force
next
  fix i t assume i: "i \<in> {1..n}" and t: "t \<in> set tasks'"
  obtain t0 where "t0 \<in> set tasks" "demand t0 = demand t" by (rule demands_of_map[OF dm t])
  then show "capacity (nodes' i) + demand t \<le> 2147483647"
    using assms(1) i cap unfolding planner_ok_def by force
qed

lemma place_task_keeps:
  assumes ok: "planner_ok n nodes tasks" and idx: "idx < length tasks"
    and st: "place_task n dist_t idx (nodes, tasks) = (nodes', tasks')"
  shows "planner_ok n nodes' tasks'"
    and "\<forall>i. current_usage (nodes' i) = current_usage (nodes i) +
           (if fst (find_best n dist_t nodes (tasks ! idx)) = Some i then demand (tasks ! idx) else 0)"
proof -
  have w: "within_capacity n nodes" and nn: "\<forall>i. 0 \<le> current_usage (nodes i)"
    using ok by (simp_all add: planner_ok_def)
  have t: "tasks ! idx \<in> set tasks" using idx by simp
  have d: "0 \<le> demand (tasks ! idx)" using ok t unfolding planner_ok_def by blast
  have mag: "\<forall>i\<in>{1..n}. capacity (nodes i) + demand (tasks ! idx) \<le> 2147483647"
    using ok t unfolding planner_ok_def by blast
  note u = place_task_usage[OF w nn d mag, of dist_t, unfolded st fst_conv]
  show e: "\<forall>i. current_usage (nodes' i) = current_usage (nodes i) +
           (if fst (find_best n dist_t nodes (tasks ! idx)) = Some i then demand (tasks ! idx) else 0)"
    using u(1) by blast
  have nn': "\<forall>i. 0 \<le> current_usage (nodes' i)"
    using e nn d by (simp add: add_nonneg_nonneg)
  have dm: "map demand tasks' = map demand tasks"
    using place_task_demands[of n dist_t idx nodes tasks] st by simp
  have cap: "\<forall>i. capacity (nodes' i) = capacity (nodes i)"
    using place_task_capacity[of n dist_t idx nodes tasks] st by simp
  show "planner_ok n nodes' tasks'"
    by (rule planner_ok_static[OF ok u(2) nn' cap dm])
qed

lemma greedy_fold_within:
  assumes "planner_ok n nodes tasks" and "\<forall>idx\<in>set order. idx < length tasks"
  shows "planner_ok n (fst (fold (place_task n dist_t) order (nodes, tasks)))
           (snd (fold (place_task n dist_t) order (nodes, tasks)))"
  using assms
proof (induction order arbitrary: nodes tasks)
  case Nil
  then show ?case by simp
next
  case (Cons idx order)
  obtain nodes' tasks' where st: "place_task n dist_t idx (nodes, tasks) = (nodes', tasks')"
    by (cases "place_task n dist_t idx (nodes, tasks)")
  have idx: "idx < length tasks" using Cons.prems(2) by simp
  have len: "length tasks' = length tasks"
    using place_task_length[of n dist_t idx nodes tasks] st by simp
  have idx': "\<forall>idx\<in>set order. idx < length tasks'" using Cons.prems(2) len by simp
  show ?case using Cons.IH[OF place_task_keeps(1)[OF Cons.prems(1) idx st] idx'] st by simp
qed

lemma place_task_fits:
  assumes "\<forall>i. fits32 (current_usage (nodes i))"
  shows "\<forall>i. fits32 (current_usage (fst (place_task n dist_t idx (nodes, tasks)) i))"
  using assms int32_range
  by (auto simp: place_task_def Let_def add_usage_apply fits32_def split: prod.splits option.splits)

lemma greedy_fold_fits:
  assumes "\<forall>i. fits32 (current_usage (nodes i))"
  shows "\<forall>i. fits32 (current_usage (fst (fold (place_task n dist_t) order (nodes, tasks)) i))"
  using assms
proof (induction order arbitrary: nodes tasks)
  case Nil
  then show ?case by simp
next
  case (Cons idx order)
  obtain nodes' tasks' where st: "place_task n dist_t idx (nodes, tasks) = (nodes', tasks')"
    by (cases "place_task n dist_t idx (nodes, tasks)")
  have "\<forall>i. fits32 (current_usage (nodes' i))"
    using place_task_fits[OF Cons.prems, of n dist_t idx tasks] st by simp
  from Cons.IH[OF this] show ?case using st by simp
qed

lemma greedy_fold_static:
  "(\<forall>i. capacity (fst (fold (place_task n dist_t) order (nodes, tasks)) i) = capacity (nodes i)) \<and>
   length (snd (fold (place_task n dist_t) order (nodes, tasks))) = length tasks \<and>
   map demand (snd (fold (place_task n dist_t) order (nodes, tasks))) = map demand tasks"
proof (induction order arbitrary: nodes tasks)
  case Nil
  then show ?case by simp
next
  case (Cons idx order)
  obtain nodes' tasks' where st: "place_task n dist_t idx (nodes, tasks) = (nodes', tasks')"
    by (cases "place_task n dist_t idx (nodes, tasks)")
  have c: "capacity (nodes' i) = capacity (nodes i)" for i
    using place_task_capacity[of n dist_t idx nodes tasks i] st by simp
  have l: "length tasks' = length tasks"
    using place_task_length[of n dist_t idx nodes tasks] st by simp
  have d: "map demand tasks' = map demand tasks"
    using place_task_demands[of n dist_t idx nodes tasks] st by simp
  show ?case using Cons.IH[of nodes' tasks'] st c l d by simp
qed

section \<open>A condition on the input for exact scans\<close>

lemma place_task_static:
  "map (\<lambda>t. (start_node t, demand t)) (snd (place_task n dist_t idx (nodes, tasks)))
     = map (\<lambda>t. (start_node t, demand t)) tasks"
proof -
  have "snd (place_task n dist_t idx (nodes, tasks)) = tasks \<or>
      (\<exists>e m. snd (place_task n dist_t idx (nodes, tasks))
         = tasks[idx := (tasks ! idx)\<lparr>end_node := e, migration_cost := m\<rparr>])"
    by (auto simp: place_task_def Let_def split: prod.splits option.splits)
  then show ?thesis
    by (cases "idx < length tasks") (auto simp: list_eq_iff_nth_eq nth_list_update)
qed

lemma scan_fits_static:
  assumes "scan_fits n dist_t nodes tasks"
    and "\<forall>i. capacity (nodes' i) = capacity (nodes i)"
    and "map (\<lambda>t. (start_node t, demand t)) tasks' = map (\<lambda>t. (start_node t, demand t)) tasks"
  shows "scan_fits n dist_t nodes' tasks'"
  unfolding scan_fits_def
proof
  fix t' assume "t' \<in> set tasks'"
  then have "(start_node t', demand t') \<in> set (map (\<lambda>t. (start_node t, demand t)) tasks)"
    unfolding assms(3)[symmetric] by force
  then obtain t where t: "t \<in> set tasks" "start_node t = start_node t'" "demand t = demand t'"
    by auto
  show "0 \<le> demand t' \<and> fits32 (demand t') \<and>
        (\<forall>i\<in>{1..n}. fits32 (capacity (nodes' i) + demand t') \<and>
           (dist_t (start_node t') i \<noteq> INF_val \<longrightarrow> fits32 (dist_t (start_node t') i * demand t')))"
    using assms(1)[unfolded scan_fits_def, rule_format, OF t(1)] assms(2) t(2,3) by simp
qed

lemma scan_fits_step:
  assumes fits: "scan_fits n dist_t nodes tasks" and low: "usage_low n nodes"
    and t: "t \<in> set tasks"
  shows "step_exact n dist_t nodes t"
    and "\<forall>c\<in>{1..n}. fits32 (current_usage (nodes c) + demand t)"
proof -
  show s: "\<forall>c\<in>{1..n}. fits32 (current_usage (nodes c) + demand t)"
  proof
    fix c assume c: "c \<in> {1..n}"
    have d: "0 \<le> demand t" "fits32 (demand t)" "fits32 (capacity (nodes c) + demand t)"
      using fits t c unfolding scan_fits_def by blast+
    have u: "0 \<le> current_usage (nodes c)" "current_usage (nodes c) \<le> max 0 (capacity (nodes c))"
      using low c unfolding usage_low_def by blast+
    show "fits32 (current_usage (nodes c) + demand t)"
      using d u unfolding fits32_def by (auto simp: max_def split: if_splits)
  qed
  have p: "\<forall>c\<in>{1..n}. dist_t (start_node t) c \<noteq> INF_val \<longrightarrow>
      fits32 (dist_t (start_node t) c * demand t)"
    using fits t unfolding scan_fits_def by blast
  have r: "set [1..<Suc n] = {1..n}" by auto
  show "step_exact n dist_t nodes t"
    unfolding step_exact_def r using s p by blast
qed

lemma place_task_low:
  assumes fits: "scan_fits n dist_t nodes tasks" and low: "usage_low n nodes"
    and idx: "idx < length tasks"
  shows "usage_low n (fst (place_task n dist_t idx (nodes, tasks)))"
proof -
  let ?t = "tasks ! idx"
  have t: "?t \<in> set tasks" using idx by simp
  have d: "0 \<le> demand ?t" using fits t unfolding scan_fits_def by blast
  obtain best mc where fb: "find_best n dist_t nodes ?t = (best, mc)"
    by (cases "find_best n dist_t nodes ?t")
  show ?thesis
  proof (cases best)
    case None
    then show ?thesis using fb low by (simp add: place_task_def)
  next
    case (Some b)
    note p = find_best_Some[OF fb[unfolded Some]]
    have "fits32 (current_usage (nodes b) + demand ?t)"
      using scan_fits_step(2)[OF fits low t] p(1) by blast
    then have ex: "int32 (current_usage (nodes b) + demand ?t) = current_usage (nodes b) + demand ?t"
      by (rule fits32_int32)
    have st: "fst (place_task n dist_t idx (nodes, tasks)) = add_usage b (demand ?t) nodes"
      using fb Some by (simp add: place_task_def Let_def)
    show ?thesis
      unfolding usage_low_def st
    proof
      fix i assume i: "i \<in> {1..n}"
      have "0 \<le> current_usage (nodes i)" "current_usage (nodes i) \<le> max 0 (capacity (nodes i))"
        using low i unfolding usage_low_def by blast+
      then show "0 \<le> current_usage (add_usage b (demand ?t) nodes i) \<and>
          current_usage (add_usage b (demand ?t) nodes i)
            \<le> max 0 (capacity (add_usage b (demand ?t) nodes i))"
        using p(3) d by (auto simp: add_usage_apply ex)
    qed
  qed
qed

text \<open>
  With demands that are not negative, and capacities plus demands and costs of reachable
  targets that fit in 32 bits, every scan of a run over task indices is exact.
\<close>

lemma scan_fits_exact:
  assumes "scan_fits n dist_t nodes tasks" and "usage_low n nodes"
    and "\<forall>idx\<in>set order. idx < length tasks"
  shows "scan_exact n dist_t order (nodes, tasks)"
  using assms
proof (induction order arbitrary: nodes tasks)
  case Nil
  show ?case by simp
next
  case (Cons idx order)
  obtain nodes' tasks' where st: "place_task n dist_t idx (nodes, tasks) = (nodes', tasks')"
    by (cases "place_task n dist_t idx (nodes, tasks)")
  have idx: "idx < length tasks" using Cons.prems(3) by simp
  have ex: "step_exact n dist_t nodes (tasks ! idx)"
    using scan_fits_step(1)[OF Cons.prems(1,2)] idx by simp
  have cap: "\<forall>i. capacity (nodes' i) = capacity (nodes i)"
    using place_task_capacity[of n dist_t idx nodes tasks] st by simp
  have sd: "map (\<lambda>t. (start_node t, demand t)) tasks' = map (\<lambda>t. (start_node t, demand t)) tasks"
    using place_task_static[of n dist_t idx nodes tasks] st by simp
  have fits': "scan_fits n dist_t nodes' tasks'"
    by (rule scan_fits_static[OF Cons.prems(1) cap sd])
  have low': "usage_low n nodes'"
    using place_task_low[OF Cons.prems(1,2) idx] st by simp
  have len: "length tasks' = length tasks"
    using place_task_length[of n dist_t idx nodes tasks] st by simp
  have idx': "\<forall>idx\<in>set order. idx < length tasks'" using Cons.prems(3) len by simp
  show ?case using ex Cons.IH[OF fits' low' idx'] st by simp
qed

lemma input_fits_exact:
  assumes sort: "sort_contract (demand_greater tasks) [0..<length tasks]
                   (sorted_indices sort_fn tasks)"
    and fits: "scan_fits n dist_t nodes tasks"
  shows "scan_exact n dist_t (sorted_indices sort_fn tasks) (reset_usage n nodes, tasks)"
proof -
  have "\<forall>i. capacity (reset_usage n nodes i) = capacity (nodes i)"
    by (simp add: reset_usage_apply)
  then have f: "scan_fits n dist_t (reset_usage n nodes) tasks"
    using scan_fits_static[OF fits] by simp
  have l: "usage_low n (reset_usage n nodes)"
    by (simp add: usage_low_def reset_usage_apply)
  have "\<forall>idx\<in>set (sorted_indices sort_fn tasks). idx < length tasks"
    using sort_contractD(2)[OF sort] by simp
  from scan_fits_exact[OF f l this] show ?thesis .
qed

section \<open>Loads and demands\<close>

lemma sum_list_nonneg_nth:
  fixes f :: "'a \<Rightarrow> int"
  assumes "\<forall>x\<in>set xs. 0 \<le> f x" and "i < length xs"
  shows "f (xs ! i) \<le> sum_list (map f xs)"
  using assms
proof (induction xs arbitrary: i)
  case Nil
  then show ?case by simp
next
  case (Cons x xs)
  have s: "0 \<le> sum_list (map f xs)" using Cons.prems(1) by (intro sum_list_nonneg) auto
  have x: "0 \<le> f x" using Cons.prems(1) by simp
  show ?case
  proof (cases i)
    case 0
    then show ?thesis using s by simp
  next
    case (Suc k)
    then have "f (xs ! k) \<le> sum_list (map f xs)" using Cons by simp
    then show ?thesis using Suc x by simp
  qed
qed

lemma total_demand_bounds:
  assumes "\<forall>t\<in>set ts. 0 \<le> demand t"
  shows "0 \<le> total_demand ts" and "0 \<le> load ts j" and "load ts j \<le> total_demand ts"
    and "i < length ts \<Longrightarrow> demand (ts ! i) \<le> total_demand ts"
    and "i < length ts \<Longrightarrow> end_node (ts ! i) = j \<Longrightarrow> demand (ts ! i) \<le> load ts j"
proof -
  show "0 \<le> total_demand ts"
    unfolding total_demand_def using assms by (intro sum_list_nonneg) auto
  show "0 \<le> load ts j"
    unfolding load_def using assms by (intro sum_list_nonneg) auto
  show "load ts j \<le> total_demand ts"
    unfolding load_def total_demand_def using assms by (intro sum_list_mono) auto
  show "demand (ts ! i) \<le> total_demand ts" if "i < length ts"
    unfolding total_demand_def using sum_list_nonneg_nth[of ts demand i] assms that by simp
  show "demand (ts ! i) \<le> load ts j" if "i < length ts" "end_node (ts ! i) = j"
    unfolding load_def
    using sum_list_nonneg_nth[of ts "\<lambda>t. if end_node t = j then demand t else 0" i] assms that
    by simp
qed

lemma total_demand_map:
  assumes "map demand ts' = map demand ts"
  shows "total_demand ts' = total_demand ts"
  by (simp add: total_demand_def assms)

lemma sa_move_demands:
  "map demand (sa_tasks (sa_move dist_t i e c s)) = map demand (sa_tasks s)"
  by (cases "i < length (sa_tasks s)")
     (auto simp: sa_move_fields list_eq_iff_nth_eq nth_list_update)

section \<open>The counters of the optimizer\<close>

text \<open>
  An accepted move in a state of the kind \<open>usage_ok\<close>: the sum of the capacity test and
  the two updates of the counters are exact.
\<close>

lemma sa_move_exact:
  assumes ok: "usage_ok n (sa_nodes s) (sa_tasks s)"
    and i: "i < length (sa_tasks s)" and e: "e \<in> {1..n}"
    and ne: "e \<noteq> end_node (sa_tasks s ! i)"
    and test: "int32 (current_usage (sa_nodes s e) + demand (sa_tasks s ! i))
                 \<le> capacity (sa_nodes s e)"
  shows "current_usage (sa_nodes (sa_move dist_t i e c s) j) =
     current_usage (sa_nodes s j)
       - (if j = end_node (sa_tasks s ! i) then demand (sa_tasks s ! i) else 0)
       + (if j = e then demand (sa_tasks s ! i) else 0)"
    and "current_usage (sa_nodes s e) + demand (sa_tasks s ! i) \<le> capacity (sa_nodes s e)"
    and "capacity (sa_nodes (sa_move dist_t i e c s) j) = capacity (sa_nodes s j)"
proof -
  let ?t = "sa_tasks s ! i"
  let ?old = "end_node ?t"
  let ?u = "\<lambda>j. current_usage (sa_nodes s j)"
  have dem: "\<forall>t\<in>set (sa_tasks s). 0 \<le> demand t" using ok by (simp add: usage_ok_def)
  note tb = total_demand_bounds[OF dem]
  have d0: "0 \<le> demand ?t" using dem i by simp
  have dt: "demand ?t \<le> total_demand (sa_tasks s)" using tb(4)[OF i] .
  have ce: "0 \<le> capacity (sa_nodes s e)"
    "capacity (sa_nodes s e) + total_demand (sa_tasks s) \<le> 2147483647"
    using ok e unfolding usage_ok_def by blast+
  have ue: "?u e \<le> capacity (sa_nodes s e)"
    using ok e unfolding usage_ok_def within_capacity_def by blast
  have fe: "fits32 (?u e)" and fo: "fits32 (?u ?old)"
    using ok unfolding usage_ok_def by blast+
  have lo: "load (sa_tasks s) ?old - total_demand (sa_tasks s) \<le> ?u ?old"
    using ok unfolding usage_ok_def by blast
  have ld: "demand ?t \<le> load (sa_tasks s) ?old" using tb(5)[OF i refl] .
  have "fits32 (?u e + demand ?t)"
    using fe d0 ue dt ce unfolding fits32_def by linarith
  then have xe: "int32 (?u e + demand ?t) = ?u e + demand ?t" by (rule fits32_int32)
  have "fits32 (?u ?old + - demand ?t)"
    using fo d0 lo ld ce unfolding fits32_def by linarith
  then have xo: "int32 (?u ?old + - demand ?t) = ?u ?old - demand ?t"
    using fits32_int32 by fastforce
  show "current_usage (sa_nodes (sa_move dist_t i e c s) j) =
     ?u j - (if j = ?old then demand ?t else 0) + (if j = e then demand ?t else 0)"
    using ne xe xo by (auto simp: sa_move_fields add_usage_apply)
  show "?u e + demand ?t \<le> capacity (sa_nodes s e)" using test unfolding xe .
  show "capacity (sa_nodes (sa_move dist_t i e c s) j) = capacity (sa_nodes s j)"
    by (simp add: sa_move_fields add_usage_apply)
qed

lemma usage_ok_step:
  assumes ok: "usage_ok n (sa_nodes s) (sa_tasks s)"
    and ne: "sa_tasks s \<noteq> []" and n: "0 < n"
  shows "usage_ok n (sa_nodes (sa_iteration n dist_t dr s)) (sa_tasks (sa_iteration n dist_t dr s))"
  using ne n
proof (cases rule: sa_iteration_cases[where dist_t=dist_t and dr=dr and n=n and s=s])
  case skip
  then show ?thesis using ok by simp
next
  case reject
  then show ?thesis using ok by (simp add: cool_fields)
next
  case (move i e)
  define c where "c = cost_diff_of dist_t (sa_tasks s ! i) e"
  let ?s' = "sa_move dist_t i e c s"
  let ?t = "sa_tasks s ! i"
  have it: "sa_iteration n dist_t dr s = cool ?s'" using move(6) by (simp add: c_def)
  note x = sa_move_exact(1)[OF ok move(1,2,3,5), where dist_t=dist_t and c=c]
    sa_move_exact(2)[OF ok move(1,2,3,5)]
    sa_move_exact(3)[OF ok move(1,2,3,5), where dist_t=dist_t and c=c]
  have dem: "\<forall>t\<in>set (sa_tasks s). 0 \<le> demand t" using ok by (simp add: usage_ok_def)
  have d0: "0 \<le> demand ?t" using dem move(1) by simp
  have dm: "map demand (sa_tasks ?s') = map demand (sa_tasks s)" by (rule sa_move_demands)
  have tot: "total_demand (sa_tasks ?s') = total_demand (sa_tasks s)"
    by (rule total_demand_map[OF dm])
  have ld: "load (sa_tasks ?s') j = load (sa_tasks s) j
      - (if end_node ?t = j then demand ?t else 0) + (if e = j then demand ?t else 0)" for j
    using load_update[OF move(1), of _ j] by (simp add: sa_move_fields(2))
  have "usage_ok n (sa_nodes ?s') (sa_tasks ?s')"
    unfolding usage_ok_def
  proof (intro conjI ballI allI)
    show "within_capacity n (sa_nodes ?s')"
      unfolding within_capacity_def
    proof
      fix j assume j: "j \<in> {1..n}"
      have "current_usage (sa_nodes s j) \<le> capacity (sa_nodes s j)"
        using ok j unfolding usage_ok_def within_capacity_def by blast
      then show "current_usage (sa_nodes ?s' j) \<le> capacity (sa_nodes ?s' j)"
        using x(2) d0 move(3) by (auto simp: x(1,3))
    qed
  next
    fix t assume t: "t \<in> set (sa_tasks ?s')"
    obtain t0 where "t0 \<in> set (sa_tasks s)" "demand t0 = demand t"
      by (rule demands_of_map[OF dm t])
    then show "0 \<le> demand t" using dem by force
  next
    fix j assume "j \<in> {1..n}"
    then show "0 \<le> capacity (sa_nodes ?s' j)"
      "capacity (sa_nodes ?s' j) + total_demand (sa_tasks ?s') \<le> 2147483647"
      using ok unfolding usage_ok_def x(3) tot by blast+
  next
    fix j
    have "fits32 (current_usage (sa_nodes s j))" using ok unfolding usage_ok_def by blast
    then show "fits32 (current_usage (sa_nodes ?s' j))"
      using int32_range by (auto simp: sa_move_fields add_usage_apply fits32_def)
  next
    fix j
    have "load (sa_tasks s) j - total_demand (sa_tasks s) \<le> current_usage (sa_nodes s j)"
      using ok unfolding usage_ok_def by blast
    then show "load (sa_tasks ?s') j - total_demand (sa_tasks ?s') \<le> current_usage (sa_nodes ?s' j)"
      unfolding x(1) ld tot by auto
  qed
  then show ?thesis by (simp add: it cool_fields)
qed

text \<open>
  When every counter of \<open>1..N\<close> is the load of its node, it stays so, and the load of
  the best assignment stays within the capacities.
\<close>

lemma load_step:
  assumes ok: "usage_ok n (sa_nodes s) (sa_tasks s)"
    and u: "\<forall>j\<in>{1..n}. current_usage (sa_nodes s j) = load (sa_tasks s) j"
    and b: "\<forall>j\<in>{1..n}. load (best_tasks dist_t s) j \<le> capacity (sa_nodes s j)"
    and ne: "sa_tasks s \<noteq> []" and n: "0 < n"
  shows "(\<forall>j\<in>{1..n}. current_usage (sa_nodes (sa_iteration n dist_t dr s) j)
            = load (sa_tasks (sa_iteration n dist_t dr s)) j) \<and>
         (\<forall>j\<in>{1..n}. load (best_tasks dist_t (sa_iteration n dist_t dr s)) j
            \<le> capacity (sa_nodes (sa_iteration n dist_t dr s) j))"
  using ne n
proof (cases rule: sa_iteration_cases[where dist_t=dist_t and dr=dr and n=n and s=s])
  case skip
  then show ?thesis using u b by simp
next
  case reject
  then show ?thesis using u b by (simp add: cool_fields best_tasks_cool)
next
  case (move i e)
  define c where "c = cost_diff_of dist_t (sa_tasks s ! i) e"
  let ?s' = "sa_move dist_t i e c s"
  have it: "sa_iteration n dist_t dr s = cool ?s'" using move(6) by (simp add: c_def)
  note x = sa_move_exact(1)[OF ok move(1,2,3,5), where dist_t=dist_t and c=c]
    sa_move_exact(2)[OF ok move(1,2,3,5)]
    sa_move_exact(3)[OF ok move(1,2,3,5), where dist_t=dist_t and c=c]
  have "usage_ok n (sa_nodes ?s') (sa_tasks ?s')"
    using usage_ok_step[OF ok ne n, of dist_t dr] by (simp add: it cool_fields)
  then have w': "within_capacity n (sa_nodes ?s')" by (simp add: usage_ok_def)
  have u': "current_usage (sa_nodes ?s' j) = load (sa_tasks ?s') j" if "j \<in> {1..n}" for j
  proof -
    have "current_usage (sa_nodes s j) = load (sa_tasks s) j" using u that by simp
    then show ?thesis
      using move(3) load_update[OF move(1), of _ j]
      by (auto simp: x(1) sa_move_fields(2))
  qed
  have b': "load (best_tasks dist_t ?s') j \<le> capacity (sa_nodes ?s' j)" if "j \<in> {1..n}" for j
  proof (cases "int64 (current_cost s + c) < best_cost s")
    case True
    then have "map core (best_tasks dist_t ?s') = map core (sa_tasks ?s')"
      by (simp add: best_tasks_move_core)
    from load_core[OF this, of j]
    have "load (best_tasks dist_t ?s') j = current_usage (sa_nodes ?s' j)"
      using u'[OF that] by simp
    moreover have "current_usage (sa_nodes ?s' j) \<le> capacity (sa_nodes ?s' j)"
      using w' that unfolding within_capacity_def by blast
    ultimately show ?thesis by simp
  next
    case False
    then show ?thesis
      using b that by (simp add: best_tasks_move x(3))
  qed
  show ?thesis using u' b' by (simp add: it cool_fields best_tasks_cool)
qed

section \<open>The planner's usage when every task is placed\<close>

lemma fold_place_task_other:
  assumes "j \<notin> set order"
  shows "snd (fold (place_task n dist_t) order (nodes, tasks)) ! j = tasks ! j"
  using assms
proof (induction order arbitrary: nodes tasks)
  case Nil
  then show ?case by simp
next
  case (Cons idx order)
  obtain nodes' tasks' where st: "place_task n dist_t idx (nodes, tasks) = (nodes', tasks')"
    by (cases "place_task n dist_t idx (nodes, tasks)")
  have "tasks' ! j = tasks ! j"
    using place_task_other[of j idx n dist_t nodes tasks] Cons.prems st by simp
  then show ?case using Cons.IH[of nodes' tasks'] Cons.prems st by simp
qed

lemma greedy_usage_sum:
  assumes "planner_ok n nodes tasks"
    and "distinct order" and "\<forall>idx\<in>set order. idx < length tasks"
    and "unplaced n dist_t order (nodes, tasks) = []"
    and "fold (place_task n dist_t) order (nodes, tasks) = (nodes', tasks')"
  shows "current_usage (nodes' i) =
     current_usage (nodes i) +
     (\<Sum>idx\<leftarrow>order. if end_node (tasks' ! idx) = i then demand (tasks' ! idx) else 0)"
  using assms
proof (induction order arbitrary: nodes tasks)
  case Nil
  then show ?case by simp
next
  case (Cons idx order)
  let ?t = "tasks ! idx"
  obtain best mc where fb: "find_best n dist_t nodes ?t = (best, mc)"
    by (cases "find_best n dist_t nodes ?t")
  obtain b where b: "best = Some b" using Cons.prems(4) fb by (cases best) auto
  obtain nodes1 tasks1 where st: "place_task n dist_t idx (nodes, tasks) = (nodes1, tasks1)"
    by (cases "place_task n dist_t idx (nodes, tasks)")
  have tasks1: "tasks1 = tasks[idx := ?t\<lparr>end_node := b, migration_cost := mc\<rparr>]"
    using st fb b by (simp add: place_task_def Let_def)
  have idx: "idx < length tasks" "idx \<notin> set order" using Cons.prems(2,3) by auto
  note k = place_task_keeps[OF Cons.prems(1) idx(1) st]
  have f: "fold (place_task n dist_t) order (nodes1, tasks1) = (nodes', tasks')"
    using Cons.prems(5) st by simp
  have rest: "unplaced n dist_t order (nodes1, tasks1) = []"
    using Cons.prems(4) st by simp
  have idx': "\<forall>idx\<in>set order. idx < length tasks1" using Cons.prems(3) by (simp add: tasks1)
  have ih: "current_usage (nodes' i) = current_usage (nodes1 i) +
      (\<Sum>k\<leftarrow>order. if end_node (tasks' ! k) = i then demand (tasks' ! k) else 0)"
    using Cons.IH[OF k(1) _ idx' rest f] Cons.prems(2) by simp
  have at: "tasks' ! idx = ?t\<lparr>end_node := b, migration_cost := mc\<rparr>"
    using fold_place_task_other[OF idx(2), of n dist_t nodes1 tasks1] idx(1) f
    by (simp add: tasks1)
  have "current_usage (nodes1 i) = current_usage (nodes i) + (if b = i then demand ?t else 0)"
    using k(2) fb b by auto
  then show ?case using ih at by simp
qed

lemma sum_over_indices:
  fixes g :: "'a \<Rightarrow> int"
  assumes "distinct order" and "set order = {0..<length ts}"
  shows "(\<Sum>idx\<leftarrow>order. g (ts ! idx)) = sum_list (map g ts)"
proof -
  have "(\<Sum>idx\<leftarrow>order. g (ts ! idx)) = sum (\<lambda>idx. g (ts ! idx)) (set order)"
    using assms(1) by (simp add: sum_list_distinct_conv_sum_set)
  also have "\<dots> = sum (\<lambda>idx. g (ts ! idx)) (set [0..<length ts])"
    using assms(2) by simp
  also have "\<dots> = (\<Sum>idx\<leftarrow>[0..<length ts]. g (ts ! idx))"
    by (simp add: sum_list_distinct_conv_sum_set)
  also have "\<dots> = sum_list (map g (map ((!) ts) [0..<length ts]))"
    by (simp add: comp_def)
  also have "\<dots> = sum_list (map g ts)" by (simp only: map_nth)
  finally show ?thesis .
qed

section \<open>The counters after the write-back\<close>

lemma load_append: "load (xs @ ys) i = load xs i + load ys i"
  by (simp add: load_def)

lemma load_take_le:
  assumes "\<forall>t\<in>set ws. 0 \<le> demand t"
  shows "0 \<le> load (take k ws) i" and "load (take k ws) i \<le> load ws i"
proof -
  have t: "\<forall>t\<in>set (take k ws). 0 \<le> demand t" and d: "\<forall>t\<in>set (drop k ws). 0 \<le> demand t"
    using assms by (auto dest: in_set_takeD in_set_dropD)
  show "0 \<le> load (take k ws) i" using total_demand_bounds(2)[OF t] .
  have "load ws i = load (take k ws) i + load (drop k ws) i"
    using load_append[of "take k ws" "drop k ws" i] by simp
  then show "load (take k ws) i \<le> load ws i"
    using total_demand_bounds(2)[OF d, of i] by simp
qed

lemma written_back_demands:
  assumes "length best = length ts" and "\<forall>t\<in>set ts. 0 \<le> demand t"
  shows "\<forall>t\<in>set (written_back dist_t best ts). 0 \<le> demand t"
proof
  fix t assume "t \<in> set (written_back dist_t best ts)"
  then obtain j where j: "j < length (written_back dist_t best ts)"
    "written_back dist_t best ts ! j = t"
    by (auto simp: in_set_conv_nth)
  then have "j < length ts" "j < length best" using assms(1) by (simp_all add: written_back_length)
  then have "demand t = demand (ts ! j)" using written_back_nth[of j ts best dist_t] j(2) by auto
  then show "0 \<le> demand t" using assms(2) \<open>j < length ts\<close> by simp
qed

text \<open>
  The write-back adds the demands again, task by task. At a node whose counter starts
  at 0 or above and whose load in the best assignment fits on top of it, every sum is
  exact.
\<close>

lemma restore_prefix_usage:
  assumes k: "k \<le> length ts" and len: "length best = length ts"
    and dem: "\<forall>t\<in>set ts. 0 \<le> demand t"
    and u0: "0 \<le> current_usage (nodes i)"
    and bound: "current_usage (nodes i) + load (written_back dist_t best ts) i \<le> 2147483647"
  shows "current_usage (fst (fold (restore_task dist_t best) [0..<k] (nodes, ts)) i) =
           current_usage (nodes i) + load (take k (written_back dist_t best ts)) i \<and>
         capacity (fst (fold (restore_task dist_t best) [0..<k] (nodes, ts)) i) = capacity (nodes i)"
  using k
proof (induction k)
  case 0
  show ?case by (simp add: load_Nil)
next
  case (Suc k)
  let ?wb = "written_back dist_t best ts"
  let ?f = "fold (restore_task dist_t best) [0..<k] (nodes, ts)"
  have k: "k < length ts" "k < length best" "k \<le> length ts" using Suc.prems len by simp_all
  have wlen: "length ?wb = length ts" using len by (simp add: written_back_length)
  obtain nd tk where f: "?f = (nd, tk)" by (cases ?f)
  have tk: "tk = take k ?wb @ drop k ts"
    using restore_prefix_tasks[OF k(3) len, of dist_t nodes] f by simp
  have at_k: "tk ! k = ts ! k" using k wlen by (simp add: tk nth_append)
  have wk: "end_node (?wb ! k) = best ! k" "demand (?wb ! k) = demand (ts ! k)"
    using k by (simp_all add: written_back_nth)
  have ih: "current_usage (nd i) = current_usage (nodes i) + load (take k ?wb) i"
    "capacity (nd i) = capacity (nodes i)"
    using Suc.IH k(3) f by simp_all
  note wd = written_back_demands[OF len dem, of dist_t]
  have nxt: "load (take (Suc k) ?wb) i
      = load (take k ?wb) i + (if best ! k = i then demand (ts ! k) else 0)"
    using load_take_Suc[of k ?wb i] k wlen wk by simp
  have "fits32 (current_usage (nodes i) + load (take (Suc k) ?wb) i)"
    using load_take_le[OF wd, of "Suc k" i] u0 bound unfolding fits32_def by linarith
  then have ex: "int32 (current_usage (nodes i) + load (take (Suc k) ?wb) i)
      = current_usage (nodes i) + load (take (Suc k) ?wb) i"
    by (rule fits32_int32)
  have "fst (restore_task dist_t best k ?f) = add_usage (best ! k) (demand (ts ! k)) nd"
    by (simp add: f restore_task_eq at_k)
  then have "current_usage (fst (restore_task dist_t best k ?f) i) =
      current_usage (nodes i) + load (take (Suc k) ?wb) i \<and>
      capacity (fst (restore_task dist_t best k ?f) i) = capacity (nodes i)"
    using ih ex nxt by (auto simp: add_usage_apply add.assoc)
  then show ?case by simp
qed

section \<open>Capacity\<close>

lemma planner_start:
  assumes caps: "\<forall>i\<in>{1..n}. 0 \<le> capacity (read_nodes node_lines i)"
    and dem: "\<forall>t\<in>set tasks. 0 \<le> demand t"
    and mag: "\<forall>i\<in>{1..n}. capacity (read_nodes node_lines i) + sum_list (map demand tasks)
                \<le> 2147483647"
  shows "planner_ok n (reset_usage n (read_nodes node_lines)) tasks"
    and "\<forall>i. fits32 (current_usage (reset_usage n (read_nodes node_lines) i))"
proof -
  have z: "current_usage (reset_usage n (read_nodes node_lines) i) = 0" for i
    by (simp add: reset_usage_apply read_nodes_usage)
  show "\<forall>i. fits32 (current_usage (reset_usage n (read_nodes node_lines) i))"
    by (simp add: z fits32_def)
  have "capacity (read_nodes node_lines i) + demand t \<le> 2147483647"
    if i: "i \<in> {1..n}" and t: "t \<in> set tasks" for i t
  proof -
    obtain j where "j < length tasks" "tasks ! j = t"
      using t by (auto simp: in_set_conv_nth)
    then have "demand t \<le> sum_list (map demand tasks)"
      using total_demand_bounds(4)[OF dem, of j] by (auto simp: total_demand_def)
    moreover have "capacity (read_nodes node_lines i) + sum_list (map demand tasks) \<le> 2147483647"
      using mag i by blast
    ultimately show ?thesis by linarith
  qed
  then show "planner_ok n (reset_usage n (read_nodes node_lines)) tasks"
    using caps dem
    by (simp add: planner_ok_def within_capacity_def reset_usage_apply read_nodes_usage)
qed

text \<open>
  Claim C1, amended. Let the capacities and the demands be non-negative and let every
  capacity plus the sum of all the demands be at most 2147483647, on the nodes as read
  from the input, and let the library sort return a rearrangement of the task indices.
  Then the usage of every node is at most its capacity after the planner and after every
  iteration of the optimizer (so after every accepted move); after the optimizer has
  written the best assignment back, the same holds when the planner found a node for
  every task. (The write-back recomputes every usage from the assignment, so a task that
  the planner left on its start node without counting it is counted then.)
\<close>

theorem usage_within_capacity:
  assumes caps: "\<forall>i\<in>{1..n}. 0 \<le> capacity (read_nodes node_lines i)"
    and dem: "\<forall>t\<in>set tasks. 0 \<le> demand t"
    and mag: "\<forall>i\<in>{1..n}. capacity (read_nodes node_lines i) + sum_list (map demand tasks)
                \<le> 2147483647"
    and sort: "sort_contract (demand_greater tasks) [0..<length tasks] (sorted_indices sort_fn tasks)"
    and g: "solveAllocationGreedy n dist_t sort_fn (read_nodes node_lines, tasks) = (nodes1, tasks1)"
    and run: "optimizeAllocationSA n dist_t draws (nodes1, tasks1) = Some (nodes2, tasks2)"
  shows "within_capacity n nodes1 \<and>
     (\<forall>k\<le>length draws. within_capacity n
        (sa_nodes (sa_loop n dist_t (take k draws) (sa_init dist_t nodes1 tasks1)))) \<and>
     (unplaced n dist_t (sorted_indices sort_fn tasks) (reset_usage n (read_nodes node_lines), tasks)
        = []
      \<longrightarrow> within_capacity n nodes2)"
proof -
  let ?nodes = "read_nodes node_lines"
  let ?order = "sorted_indices sort_fn tasks"
  let ?s0 = "sa_init dist_t nodes1 tasks1"
  note d = sort_contractD[OF sort]
  have idx: "\<forall>idx\<in>set ?order. idx < length tasks" using d(2) by simp
  note st = planner_start[OF caps dem mag]
  have e: "fold (place_task n dist_t) ?order (reset_usage n ?nodes, tasks) = (nodes1, tasks1)"
    using g by (simp add: solveAllocationGreedy_def)
  have p1: "planner_ok n nodes1 tasks1"
    using greedy_fold_within[OF st(1) idx, of dist_t] e by simp
  have f1: "\<forall>i. fits32 (current_usage (nodes1 i))"
    using greedy_fold_fits[OF st(2), of n dist_t ?order tasks] e by simp
  note s = greedy_fold_static[of n dist_t ?order "reset_usage n ?nodes" tasks, unfolded e]
  have cap1: "capacity (nodes1 i) = capacity (?nodes i)" for i
    using s by (simp add: reset_usage_apply)
  have tot1: "total_demand tasks1 = total_demand tasks"
    using s by (intro total_demand_map) simp
  have w1: "within_capacity n nodes1" and nn1: "\<forall>i. 0 \<le> current_usage (nodes1 i)"
    and dem1: "\<forall>t\<in>set tasks1. 0 \<le> demand t"
    using p1 by (simp_all add: planner_ok_def)
  note tb = total_demand_bounds[OF dem1]
  have ok1: "usage_ok n nodes1 tasks1"
    unfolding usage_ok_def
  proof (intro conjI ballI allI)
    show "within_capacity n nodes1" by (rule w1)
    show "\<And>t. t \<in> set tasks1 \<Longrightarrow> 0 \<le> demand t" using dem1 by blast
    show "\<And>i. i \<in> {1..n} \<Longrightarrow> 0 \<le> capacity (nodes1 i)" using caps cap1 by simp
    show "\<And>i. i \<in> {1..n} \<Longrightarrow> capacity (nodes1 i) + total_demand tasks1 \<le> 2147483647"
      using mag cap1 tot1 by (simp add: total_demand_def)
    show "\<And>i. fits32 (current_usage (nodes1 i))" using f1 by blast
    show "\<And>i. load tasks1 i - total_demand tasks1 \<le> current_usage (nodes1 i)"
      using tb(3) nn1 by (smt (verit))
  qed
  note r = optimize_SomeD[OF run]
  have some: "draws = [] \<or> (sa_tasks ?s0 \<noteq> [] \<and> 0 < n)" using r(2) by (simp add: sa_init_fields)
  define P where "P = (\<lambda>s :: sa_state. usage_ok n (sa_nodes s) (sa_tasks s))"
  have P0: "P ?s0" using ok1 by (simp add: P_def sa_init_fields)
  have Pstep: "P (sa_iteration n dist_t dr s)" if "P s" "sa_tasks s \<noteq> []" "0 < n" for s dr
    using that usage_ok_step[of n s dist_t dr] by (simp add: P_def)
  have Pk: "P (sa_loop n dist_t (take k draws) ?s0)" for k
    using sa_loop_take_invariant[of draws ?s0 n P dist_t k, OF some P0] Pstep by blast
  have b: "\<forall>k\<le>length draws. within_capacity n (sa_nodes (sa_loop n dist_t (take k draws) ?s0))"
    using Pk by (simp add: P_def usage_ok_def)
  have c: "within_capacity n nodes2"
    if un: "unplaced n dist_t ?order (reset_usage n ?nodes, tasks) = []"
  proof -
    define Q where "Q = (\<lambda>s :: sa_state. P s \<and>
        (\<forall>j\<in>{1..n}. current_usage (sa_nodes s j) = load (sa_tasks s) j) \<and>
        (\<forall>j\<in>{1..n}. load (best_tasks dist_t s) j \<le> capacity (sa_nodes s j)) \<and>
        length (best_assignment s) = length (sa_tasks s))"
    have len1: "length tasks1 = length tasks" using s by simp
    have u0: "current_usage (nodes1 j) = load tasks1 j" if "j \<in> {1..n}" for j
    proof -
      have "current_usage (nodes1 j) = current_usage (reset_usage n ?nodes j) +
          (\<Sum>idx\<leftarrow>?order. if end_node (tasks1 ! idx) = j then demand (tasks1 ! idx) else 0)"
        by (rule greedy_usage_sum[OF st(1) d(1) idx un e])
      also have "current_usage (reset_usage n ?nodes j) = 0"
        using that by (simp add: reset_usage_apply)
      also have "(\<Sum>idx\<leftarrow>?order. if end_node (tasks1 ! idx) = j then demand (tasks1 ! idx) else 0)
          = load tasks1 j"
        unfolding load_def
        using sum_over_indices[of ?order tasks1 "\<lambda>t. if end_node t = j then demand t else 0"]
          d len1
        by simp
      finally show ?thesis by simp
    qed
    have b0: "load (best_tasks dist_t ?s0) j \<le> capacity (nodes1 j)" if "j \<in> {1..n}" for j
    proof -
      have "load (best_tasks dist_t ?s0) j = load tasks1 j"
        using load_core[OF best_tasks_init[of dist_t nodes1 tasks1], of j] .
      moreover have "current_usage (nodes1 j) \<le> capacity (nodes1 j)"
        using w1 that unfolding within_capacity_def by blast
      ultimately show ?thesis using u0[OF that] by simp
    qed
    have Q0: "Q ?s0" using P0 u0 b0 by (simp add: Q_def sa_init_fields)
    have Qstep: "Q (sa_iteration n dist_t dr s)" if "Q s" "sa_tasks s \<noteq> []" "0 < n" for s dr
    proof -
      have p: "usage_ok n (sa_nodes s) (sa_tasks s)"
        and u: "\<forall>j\<in>{1..n}. current_usage (sa_nodes s j) = load (sa_tasks s) j"
        and bl: "\<forall>j\<in>{1..n}. load (best_tasks dist_t s) j \<le> capacity (sa_nodes s j)"
        and len: "length (best_assignment s) = length (sa_tasks s)"
        using that(1) by (simp_all add: Q_def P_def)
      show ?thesis
        unfolding Q_def
        using Pstep[of s dr] that load_step[OF p u bl that(2,3), of dr]
          best_length_step[OF len that(2,3), of dist_t dr]
        by (simp add: Q_def)
    qed
    let ?sf = "sa_loop n dist_t draws ?s0"
    have Qf: "Q ?sf"
      using sa_loop_take_invariant[of draws ?s0 n Q dist_t "length draws", OF some Q0] Qstep by simp
    have len: "length (best_assignment ?sf) = length (sa_tasks ?sf)" using Qf by (simp add: Q_def)
    have okf: "usage_ok n (sa_nodes ?sf) (sa_tasks ?sf)" using Qf by (simp add: Q_def P_def)
    have demf: "\<forall>t\<in>set (sa_tasks ?sf). 0 \<le> demand t" using okf by (simp add: usage_ok_def)
    have n2: "nodes2 = fst (fold (restore_task dist_t (best_assignment ?sf))
        [0..<length (sa_tasks ?sf)] (reset_usage n (sa_nodes ?sf), sa_tasks ?sf))"
      using r(1)[symmetric] by (simp add: restore_def)
    have "current_usage (nodes2 j) \<le> capacity (nodes2 j)" if j: "j \<in> {1..n}" for j
    proof -
      have lb: "load (best_tasks dist_t ?sf) j \<le> capacity (sa_nodes ?sf j)"
        using Qf j unfolding Q_def by blast
      have cb: "capacity (sa_nodes ?sf j) + total_demand (sa_tasks ?sf) \<le> 2147483647"
        using okf j unfolding usage_ok_def by blast
      have z: "current_usage (reset_usage n (sa_nodes ?sf) j) = 0"
        using j by (simp add: reset_usage_apply)
      have bound: "current_usage (reset_usage n (sa_nodes ?sf) j)
          + load (written_back dist_t (best_assignment ?sf) (sa_tasks ?sf)) j \<le> 2147483647"
        using lb cb total_demand_bounds(1)[OF demf] unfolding z best_tasks_def by linarith
      have wl: "length (written_back dist_t (best_assignment ?sf) (sa_tasks ?sf))
          = length (sa_tasks ?sf)"
        using len by (simp add: written_back_length)
      have z0: "0 \<le> current_usage (reset_usage n (sa_nodes ?sf) j)" using z by simp
      from restore_prefix_usage[where k="length (sa_tasks ?sf)" and ts="sa_tasks ?sf"
          and best="best_assignment ?sf" and nodes="reset_usage n (sa_nodes ?sf)" and i=j
          and dist_t=dist_t, OF le_refl len demf z0 bound] z
      have "current_usage (nodes2 j) = load (best_tasks dist_t ?sf) j"
        "capacity (nodes2 j) = capacity (sa_nodes ?sf j)"
        unfolding n2 best_tasks_def using wl by (simp_all add: reset_usage_apply)
      then show ?thesis using lb by simp
    qed
    then show ?thesis by (simp add: within_capacity_def)
  qed
  show ?thesis using w1 b c by blast
qed

theorem usage_within_capacity_witness:
  "within_capacity 3 (fst ex_planned) \<and>
   within_capacity 3 (sa_nodes (sa_loop 3 ex_dist (take 1 ex_draws)
      (sa_init ex_dist (fst ex_planned) (snd ex_planned)))) \<and>
   within_capacity 3 (sa_nodes (sa_loop 3 ex_dist (take 2 ex_draws)
      (sa_init ex_dist (fst ex_planned) (snd ex_planned)))) \<and>
   within_capacity 3 (fst (restore 3 ex_dist (sa_loop 3 ex_dist ex_draws
      (sa_init ex_dist (fst ex_planned) (snd ex_planned))))) \<and>
   map (\<lambda>i. current_usage (fst (restore 3 ex_dist (sa_loop 3 ex_dist ex_draws
      (sa_init ex_dist (fst ex_planned) (snd ex_planned)))) i)) [1, 2, 3] = [0, 2, 3]"
proof -
  have caps: "\<forall>i\<in>{1..3}. 0 \<le> capacity (read_nodes [(1, 0), (2, 3), (3, 10)] i)"
    by (simp add: read_nodes_def read_node_def zero_nodes_def)
  have dem: "\<forall>t\<in>set ex_tasks. 0 \<le> demand t"
    by (simp add: ex_tasks_def read_tasks_def read_task_def)
  have mag: "\<forall>i\<in>{1..3}. capacity (read_nodes [(1, 0), (2, 3), (3, 10)] i)
      + sum_list (map demand ex_tasks) \<le> 2147483647"
    by (simp add: read_nodes_def read_node_def zero_nodes_def ex_tasks_def read_tasks_def
        read_task_def)
  have sort: "sort_contract (demand_greater ex_tasks) [0..<length ex_tasks]
      (sorted_indices insertion_sort ex_tasks)"
    unfolding sorted_indices_def by (rule insertion_sort_contract)
  have g: "solveAllocationGreedy 3 ex_dist insertion_sort
      (read_nodes [(1, 0), (2, 3), (3, 10)], ex_tasks) = (fst ex_planned, snd ex_planned)"
    by (simp add: ex_planned_def ex_nodes_def)
  have un: "unplaced 3 ex_dist (sorted_indices insertion_sort ex_tasks)
      (reset_usage 3 (read_nodes [(1, 0), (2, 3), (3, 10)]), ex_tasks) = []"
    by code_simp
  have v: "map (\<lambda>i. current_usage (fst (restore 3 ex_dist (sa_loop 3 ex_dist ex_draws
      (sa_init ex_dist (fst ex_planned) (snd ex_planned)))) i)) [1, 2, 3] = [0, 2, 3]"
    by code_simp
  have len: "(1::nat) \<le> length ex_draws" "(2::nat) \<le> length ex_draws"
    by (simp_all add: ex_draws_def)
  from usage_within_capacity[OF caps dem mag sort g ex_run] un len v
  show ?thesis by simp
qed

text \<open>
  The claim fails in four ways.

  One node of capacity 1 and one task of demand 5 on it. The planner finds no node with
  room and leaves the task in place, with usage 0; every iteration of the optimizer draws
  this task and this node and changes nothing; the write-back then counts the task: the
  usage of node 1 is 5, above its capacity 1.

  Two nodes of capacities 1000000000 and 2000000000, joined by a link of cost 0, with a
  task of demand 1000000000 on node 1 and a task of demand 2000000000 on node 2. The
  planner leaves both where they are, and both are placed. The optimizer then draws the
  second task for node 1: the sum 3000000000 of the capacity test is \<open>-1294967296\<close> in an
  \<^verbatim>\<open>int\<close>, the test passes and the move is accepted (its cost difference is 0). It then
  draws the first task for node 2, and the usage of node 1 becomes 2000000000, above its
  capacity 1000000000.

  One node of capacity \<open>-1\<close> and no task: its usage after the planner is 0.

  Two nodes of capacities 0 and 10, joined by a link of cost 1, with a task of demand 5
  on node 2 and a task of demand \<open>-5\<close> on node 1. The planner puts both on node 2. The
  optimizer moves the second task to node 1, then the first task to node 1 (the usage
  there is \<open>-5 + 5\<close>), then the second task back to node 2: nothing tests the node that a
  task leaves, and the usage of node 1 is 5, above its capacity 0.
\<close>

theorem capacity_exceeded_counterexample:
  "unplaced 1 (fst (routing 1 [])) (sorted_indices insertion_sort (read_tasks [(1, 1, 5)]))
     (reset_usage 1 (read_nodes [(1, 1)]), read_tasks [(1, 1, 5)]) = [0] \<and>
   current_usage (fst (solveAllocationGreedy 1 (fst (routing 1 [])) insertion_sort
      (read_nodes [(1, 1)], read_tasks [(1, 1, 5)])) 1) = 0 \<and>
   map_option (\<lambda>(nodes, tasks). (current_usage (nodes 1), capacity (nodes 1), map end_node tasks))
     (optimizeAllocationSA 1 (fst (routing 1 [])) (replicate 1024 (0, 0, False))
        (solveAllocationGreedy 1 (fst (routing 1 [])) insertion_sort
           (read_nodes [(1, 1)], read_tasks [(1, 1, 5)])))
     = Some (5, 1, [1]) \<and>
   unplaced 2 (fst (routing 2 [(1, 2, 0, 1)]))
     (sorted_indices insertion_sort (read_tasks [(1, 1, 1000000000), (2, 2, 2000000000)]))
     (reset_usage 2 (read_nodes [(1, 1000000000), (2, 2000000000)]),
      read_tasks [(1, 1, 1000000000), (2, 2, 2000000000)]) = [] \<and>
   map (\<lambda>i. (current_usage
               (sa_nodes (sa_loop 2 (fst (routing 2 [(1, 2, 0, 1)])) [(1, 0, True), (0, 1, True)]
                  (sa_init (fst (routing 2 [(1, 2, 0, 1)]))
                     (fst (solveAllocationGreedy 2 (fst (routing 2 [(1, 2, 0, 1)])) insertion_sort
                        (read_nodes [(1, 1000000000), (2, 2000000000)],
                         read_tasks [(1, 1, 1000000000), (2, 2, 2000000000)])))
                     (snd (solveAllocationGreedy 2 (fst (routing 2 [(1, 2, 0, 1)])) insertion_sort
                        (read_nodes [(1, 1000000000), (2, 2000000000)],
                         read_tasks [(1, 1, 1000000000), (2, 2, 2000000000)]))))) i),
             capacity (read_nodes [(1, 1000000000), (2, 2000000000)] i))) [1, 2]
     = [(2000000000, 1000000000), (1000000000, 2000000000)] \<and>
   (\<lambda>nd. (current_usage (nd 1), capacity (nd 1)))
     (fst (solveAllocationGreedy 1 (fst (routing 1 [])) insertion_sort
        (read_nodes [(1, - 1)], read_tasks []))) = (0, - 1) \<and>
   map (\<lambda>i. (current_usage
               (sa_nodes (sa_loop 2 (fst (routing 2 [(1, 2, 1, 1)]))
                  [(1, 0, True), (0, 0, True), (1, 1, False)]
                  (sa_init (fst (routing 2 [(1, 2, 1, 1)]))
                     (fst (solveAllocationGreedy 2 (fst (routing 2 [(1, 2, 1, 1)])) insertion_sort
                        (read_nodes [(1, 0), (2, 10)], read_tasks [(1, 2, 5), (2, 1, - 5)])))
                     (snd (solveAllocationGreedy 2 (fst (routing 2 [(1, 2, 1, 1)])) insertion_sort
                        (read_nodes [(1, 0), (2, 10)], read_tasks [(1, 2, 5), (2, 1, - 5)]))))) i),
             capacity (read_nodes [(1, 0), (2, 10)] i))) [1, 2]
     = [(5, 0), (- 5, 10)]"
  by code_simp

section \<open>Path reconstruction appends\<close>

lemma follow_hops_appends:
  assumes "follow_hops nh e c acc = Some r"
  shows "\<exists>p. r = acc @ p \<and> (\<forall>acc'. follow_hops nh e c acc' = Some (acc' @ p))"
proof (rule follow_hops.raw_induct[where
      P="\<lambda>nh e c acc r. \<exists>p. r = acc @ p \<and> (\<forall>acc'. follow_hops nh e c acc' = Some (acc' @ p))",
      OF _ assms])
  fix f :: "nat matrix \<Rightarrow> nat \<Rightarrow> nat \<Rightarrow> nat list \<Rightarrow> nat list option"
  fix nh e cur p y
  assume IH: "\<And>nh e cur p y. f nh e cur p = Some y \<Longrightarrow>
      \<exists>q. y = p @ q \<and> (\<forall>acc'. follow_hops nh e cur acc' = Some (acc' @ q))"
    and eq: "(if cur = e then Some p else f nh e (nh cur e) (p @ [nh cur e])) = Some y"
  show "\<exists>q. y = p @ q \<and> (\<forall>acc'. follow_hops nh e cur acc' = Some (acc' @ q))"
  proof (cases "cur = e")
    case True
    then have "y = p @ []" using eq by simp
    moreover have "\<forall>acc'. follow_hops nh e cur acc' = Some (acc' @ [])"
      using True by (simp add: follow_hops.simps)
    ultimately show ?thesis by blast
  next
    case False
    then have "f nh e (nh cur e) (p @ [nh cur e]) = Some y" using eq by simp
    from IH[OF this] obtain q where q: "y = (p @ [nh cur e]) @ q"
      "\<forall>acc'. follow_hops nh e (nh cur e) acc' = Some (acc' @ q)" by blast
    have "follow_hops nh e cur acc' = Some (acc' @ nh cur e # q)" for acc'
      using False q(2)[rule_format, of "acc' @ [nh cur e]"]
      by (subst follow_hops.simps) simp
    then show ?thesis using q(1) by (intro exI[of _ "nh cur e # q"]) simp
  qed
qed




section \<open>One time step of the simulation\<close>

lemma move_task_eq:
  "move_task tm idx (tasks, logs) =
     (tasks[idx := advance (tasks ! idx)], logs @ [move_entry tm (tasks ! idx)])"
  by (simp add: move_task_def advance_def move_entry_def Let_def)

lemma remaining_advance:
  assumes "\<not> finished t"
  shows "remaining (advance t) < remaining t"
  using assms by (auto simp: remaining_def advance_def Let_def)

lemma sum_list_update_nat:
  fixes xs :: "nat list"
  assumes "i < length xs"
  shows "sum_list (xs[i := y]) + xs ! i = sum_list xs + y"
  using assms
proof (induction xs arbitrary: i)
  case Nil
  then show ?case by simp
next
  case (Cons x xs)
  then show ?case by (cases i) simp_all
qed

lemma fold_move_task:
  assumes "distinct moved" and "\<forall>i\<in>set moved. i < length tasks \<and> \<not> finished (tasks ! i)"
  shows "snd (fold (move_task tm) moved (tasks, logs))
           = logs @ map (\<lambda>i. move_entry tm (tasks ! i)) moved \<and>
         length (fst (fold (move_task tm) moved (tasks, logs))) = length tasks \<and>
         sum_list (map remaining (fst (fold (move_task tm) moved (tasks, logs)))) + length moved
           \<le> sum_list (map remaining tasks)"
  using assms
proof (induction moved arbitrary: tasks logs)
  case Nil
  show ?case by simp
next
  case (Cons idx moved)
  let ?tasks1 = "tasks[idx := advance (tasks ! idx)]"
  let ?logs1 = "logs @ [move_entry tm (tasks ! idx)]"
  have st: "fold (move_task tm) (idx # moved) (tasks, logs)
      = fold (move_task tm) moved (?tasks1, ?logs1)"
    by (simp add: move_task_eq)
  have d: "distinct moved" and idx: "idx \<notin> set moved" "idx < length tasks"
    "\<not> finished (tasks ! idx)"
    using Cons.prems by auto
  have other: "?tasks1 ! i = tasks ! i" if "i \<in> set moved" for i
  proof -
    have "i \<noteq> idx" using that idx(1) by blast
    then show ?thesis by simp
  qed
  have r: "\<forall>i\<in>set moved. i < length ?tasks1 \<and> \<not> finished (?tasks1 ! i)"
  proof
    fix i assume i: "i \<in> set moved"
    then have "i < length tasks" "\<not> finished (tasks ! i)" using Cons.prems(2) by auto
    then show "i < length ?tasks1 \<and> \<not> finished (?tasks1 ! i)" using other[OF i] by simp
  qed
  note ih = Cons.IH[OF d r, of ?logs1]
  have same: "map (\<lambda>i. move_entry tm (?tasks1 ! i)) moved = map (\<lambda>i. move_entry tm (tasks ! i)) moved"
    using other by (intro map_cong) auto
  have "sum_list (map remaining ?tasks1) + remaining (tasks ! idx)
      = sum_list (map remaining tasks) + remaining (advance (tasks ! idx))"
    using sum_list_update_nat[of idx "map remaining tasks" "remaining (advance (tasks ! idx))"] idx(2)
    by (simp add: map_update)
  then have dec: "sum_list (map remaining ?tasks1) + 1 \<le> sum_list (map remaining tasks)"
    using remaining_advance[OF idx(3)] by linarith
  show ?case
    unfolding st using ih same dec by simp
qed

lemma try_move_cases:
  "try_move adj tasks i (lu, mv) = (lu, mv) \<or>
   (\<not> finished (tasks ! i) \<and>
    lu (link_key (current_pos_node (tasks ! i)) (path (tasks ! i) ! path_idx (tasks ! i)))
      < adj (current_pos_node (tasks ! i)) (path (tasks ! i) ! path_idx (tasks ! i)) \<and>
    try_move adj tasks i (lu, mv) =
      (lu(link_key (current_pos_node (tasks ! i)) (path (tasks ! i) ! path_idx (tasks ! i))
            := lu (link_key (current_pos_node (tasks ! i)) (path (tasks ! i) ! path_idx (tasks ! i))) + 1),
       mv @ [i]))"
  by (simp add: try_move_def Let_def)

lemma fold_try_move_set:
  assumes "distinct rest" and "distinct mv" and "set mv \<inter> set rest = {}"
    and "\<forall>i\<in>set mv. \<not> finished (tasks ! i)"
  shows "distinct (snd (fold (try_move adj tasks) rest (lu, mv))) \<and>
         set (snd (fold (try_move adj tasks) rest (lu, mv))) \<subseteq> set mv \<union> set rest \<and>
         (\<forall>i\<in>set (snd (fold (try_move adj tasks) rest (lu, mv))). \<not> finished (tasks ! i))"
  using assms
proof (induction rest arbitrary: lu mv)
  case Nil
  then show ?case by simp
next
  case (Cons i rest)
  obtain lu' mv' where st: "try_move adj tasks i (lu, mv) = (lu', mv')"
    by (cases "try_move adj tasks i (lu, mv)")
  have mv': "mv' = mv \<or> (\<not> finished (tasks ! i) \<and> mv' = mv @ [i])"
    using try_move_cases[of adj tasks i lu mv] st by auto
  have pre: "distinct rest" "distinct mv'" "set mv' \<inter> set rest = {}"
    "\<forall>i\<in>set mv'. \<not> finished (tasks ! i)"
    using Cons.prems mv' by auto
  have "set mv' \<subseteq> set mv \<union> {i}" using mv' by auto
  then show ?case using Cons.IH[OF pre, of lu'] st by auto
qed

lemma select_moves_props:
  "distinct (select_moves adj tasks)"
  "\<forall>i\<in>set (select_moves adj tasks). i < length tasks \<and> \<not> finished (tasks ! i)"
  using fold_try_move_set[of "[0..<length tasks]" "[]" tasks adj "\<lambda>key. 0"]
  by (auto simp: select_moves_def)

lemma link_key_sym: "link_key a b = link_key b a"
  by (simp add: link_key_def)

lemma fold_try_move_count:
  assumes sym: "\<forall>a b. adj a b = adj b a"
    and "int (length (filter (crosses tasks a b) mv)) \<le> lu (link_key a b)"
    and "int (length (filter (crosses tasks a b) mv)) \<le> max 0 (adj a b)"
  shows "int (length (filter (crosses tasks a b) (snd (fold (try_move adj tasks) rest (lu, mv)))))
           \<le> max 0 (adj a b)"
  using assms(2,3)
proof (induction rest arbitrary: lu mv)
  case Nil
  then show ?case by simp
next
  case (Cons i rest)
  let ?u = "current_pos_node (tasks ! i)"
  let ?v = "path (tasks ! i) ! path_idx (tasks ! i)"
  from try_move_cases[of adj tasks i lu mv]
  show ?case
  proof
    assume "try_move adj tasks i (lu, mv) = (lu, mv)"
    then show ?thesis using Cons.IH[of mv lu] Cons.prems by simp
  next
    assume adm: "\<not> finished (tasks ! i) \<and> lu (link_key ?u ?v) < adj ?u ?v \<and>
      try_move adj tasks i (lu, mv) = (lu(link_key ?u ?v := lu (link_key ?u ?v) + 1), mv @ [i])"
    let ?lu' = "lu(link_key ?u ?v := lu (link_key ?u ?v) + 1)"
    have pre: "int (length (filter (crosses tasks a b) (mv @ [i]))) \<le> ?lu' (link_key a b) \<and>
        int (length (filter (crosses tasks a b) (mv @ [i]))) \<le> max 0 (adj a b)"
    proof (cases "crosses tasks a b i")
      case True
      then have k: "link_key ?u ?v = link_key a b" and bw: "adj ?u ?v = adj a b"
        using sym link_key_sym[of a b] by (auto simp: crosses_def)
      show ?thesis using True adm Cons.prems k bw by simp
    next
      case False
      have "lu (link_key a b) \<le> ?lu' (link_key a b)" by simp
      then have "int (length (filter (crosses tasks a b) mv)) \<le> ?lu' (link_key a b)"
        using Cons.prems(1) by linarith
      then show ?thesis using False Cons.prems(2) by simp
    qed
    have e: "try_move adj tasks i (lu, mv) = (?lu', mv @ [i])" using adm by blast
    have "fold (try_move adj tasks) (i # rest) (lu, mv)
        = fold (try_move adj tasks) rest (?lu', mv @ [i])"
      by (simp only: fold_simps e)
    then show ?thesis
      using Cons.IH[of "mv @ [i]" ?lu', OF pre[THEN conjunct1] pre[THEN conjunct2]]
      by (simp only:)
  qed
qed

lemma select_moves_count:
  assumes "\<forall>a b. adj a b = adj b a"
  shows "int (length (filter (crosses tasks a b) (select_moves adj tasks))) \<le> max 0 (adj a b)"
  unfolding select_moves_def
  using fold_try_move_count[where adj=adj and tasks=tasks and a=a and b=b and mv="[]"
      and lu="\<lambda>key. 0" and rest="[0..<length tasks]"] assms
  by simp

lemma fold_try_move_blocked:
  assumes "\<forall>i\<in>set rest. \<not> finished (tasks ! i) \<longrightarrow>
      adj (current_pos_node (tasks ! i)) (path (tasks ! i) ! path_idx (tasks ! i)) \<le> 0"
    and "\<forall>k. 0 \<le> lu k"
  shows "fold (try_move adj tasks) rest (lu, mv) = (lu, mv)"
  using assms(1)
proof (induction rest)
  case Nil
  then show ?case by simp
next
  case (Cons i rest)
  let ?k = "link_key (current_pos_node (tasks ! i)) (path (tasks ! i) ! path_idx (tasks ! i))"
  have "0 \<le> lu ?k" using assms(2) by blast
  moreover have "\<not> finished (tasks ! i) \<longrightarrow>
      adj (current_pos_node (tasks ! i)) (path (tasks ! i) ! path_idx (tasks ! i)) \<le> 0"
    using Cons.prems by simp
  ultimately have "try_move adj tasks i (lu, mv) = (lu, mv)"
    using try_move_cases[of adj tasks i lu mv] by linarith
  then show ?case using Cons by simp
qed

lemma select_moves_blocked:
  assumes "\<forall>i<length tasks. \<not> finished (tasks ! i) \<longrightarrow>
      adj (current_pos_node (tasks ! i)) (path (tasks ! i) ! path_idx (tasks ! i)) \<le> 0"
  shows "select_moves adj tasks = []"
  using fold_try_move_blocked[of "[0..<length tasks]" tasks adj "\<lambda>key. 0" "[]"] assms
  by (simp add: select_moves_def)

section \<open>The simulation loop returns\<close>

lemma sim_loop_unfold:
  "sim_loop adj (tm, tasks, logs) =
     (if \<forall>t\<in>set tasks. finished t then Some (tm, tasks, logs)
      else if select_moves adj tasks = [] then Some (tm + 1, tasks, logs)
      else sim_loop adj
             (tm + 1, fold (move_task (tm + 1)) (select_moves adj tasks) (tasks, logs)))"
  by (subst sim_loop.simps) (simp add: Let_def)

lemma sim_loop_rule:
  assumes init: "I (tm, tasks, logs)"
    and step: "\<And>tm tasks logs. I (tm, tasks, logs) \<Longrightarrow> \<not> (\<forall>t\<in>set tasks. finished t) \<Longrightarrow>
        select_moves adj tasks \<noteq> [] \<Longrightarrow>
        I (tm + 1, fold (move_task (tm + 1)) (select_moves adj tasks) (tasks, logs))"
    and stall: "\<And>tm tasks logs. I (tm, tasks, logs) \<Longrightarrow> I (tm + 1, tasks, logs)"
  shows "\<exists>r. sim_loop adj (tm, tasks, logs) = Some r \<and> I r"
  using init
proof (induction "sum_list (map remaining tasks)" arbitrary: tm tasks logs rule: less_induct)
  case less
  show ?case
  proof (cases "\<forall>t\<in>set tasks. finished t")
    case True
    have "sim_loop adj (tm, tasks, logs) = Some (tm, tasks, logs)"
      by (simp only: sim_loop_unfold[of adj tm tasks logs] if_P[OF True])
    then show ?thesis using less.prems by simp
  next
    case False
    show ?thesis
    proof (cases "select_moves adj tasks = []")
      case True
      have "sim_loop adj (tm, tasks, logs) = Some (tm + 1, tasks, logs)"
        by (simp only: sim_loop_unfold[of adj tm tasks logs] if_not_P[OF False] if_P[OF True])
      then show ?thesis using stall[OF less.prems] by simp
    next
      case ne: False
      let ?moved = "select_moves adj tasks"
      let ?f = "fold (move_task (tm + 1)) ?moved (tasks, logs)"
      have unf: "sim_loop adj (tm, tasks, logs) = sim_loop adj (tm + 1, fst ?f, snd ?f)"
        by (simp only: sim_loop_unfold[of adj tm tasks logs] if_not_P[OF False] if_not_P[OF ne]
              prod.collapse)
      have "sum_list (map remaining (fst ?f)) + length ?moved \<le> sum_list (map remaining tasks)"
        using fold_move_task[where moved="?moved" and tasks=tasks and tm="tm + 1" and logs=logs]
          select_moves_props[of adj tasks] by blast
      moreover have "0 < length ?moved" using ne by simp
      ultimately have dec: "sum_list (map remaining (fst ?f)) < sum_list (map remaining tasks)"
        by linarith
      have "I (tm + 1, fst ?f, snd ?f)" using step[OF less.prems False ne] by simp
      from less.hyps[OF dec this] show ?thesis by (simp add: unf)
    qed
  qed
qed

lemma sim_loop_total: "\<exists>r. sim_loop adj st = Some r"
proof -
  obtain tm tasks logs where st: "st = (tm, tasks, logs)" by (cases st) auto
  show ?thesis
    using sim_loop_rule[of "\<lambda>s. True" tm tasks logs adj] by (auto simp: st)
qed

text \<open>
  Claim C4, amended. The simulation loop returns from every state. When a time step
  moves no task while unfinished tasks remain, it returns at that step: the result is
  the number of that step, with the tasks and the log as they were, and nothing else
  (there is no status; the stall shows in the tasks that are still unfinished). A step
  moves no task in particular when every unfinished task waits at a link whose
  bandwidth is 0 (or below). The whole simulation returns whenever the paths of the
  tasks could be reconstructed.
\<close>

theorem sim_loop_returns:
  "(\<exists>r. sim_loop adj (tm, tasks, logs) = Some r) \<and>
   (\<not> (\<forall>t\<in>set tasks. finished t) \<and> select_moves adj tasks = []
      \<longrightarrow> sim_loop adj (tm, tasks, logs) = Some (tm + 1, tasks, logs)) \<and>
   ((\<forall>i<length tasks. \<not> finished (tasks ! i) \<longrightarrow>
        adj (current_pos_node (tasks ! i)) (path (tasks ! i) ! path_idx (tasks ! i)) \<le> 0)
      \<longrightarrow> select_moves adj tasks = []) \<and>
   (prepare_tasks nh tasks0 \<noteq> None \<longrightarrow> simulateMigration nh adj tasks0 \<noteq> None)"
proof (intro conjI impI)
  show "\<exists>r. sim_loop adj (tm, tasks, logs) = Some r" by (rule sim_loop_total)
next
  assume a: "\<not> (\<forall>t\<in>set tasks. finished t) \<and> select_moves adj tasks = []"
  show "sim_loop adj (tm, tasks, logs) = Some (tm + 1, tasks, logs)"
    by (simp only: sim_loop_unfold[of adj tm tasks logs] if_not_P[OF a[THEN conjunct1]]
          if_P[OF a[THEN conjunct2]])
next
  assume "\<forall>i<length tasks. \<not> finished (tasks ! i) \<longrightarrow>
        adj (current_pos_node (tasks ! i)) (path (tasks ! i) ! path_idx (tasks ! i)) \<le> 0"
  then show "select_moves adj tasks = []" by (rule select_moves_blocked)
next
  assume "prepare_tasks nh tasks0 \<noteq> None"
  then obtain ts where "prepare_tasks nh tasks0 = Some ts" by blast
  then show "simulateMigration nh adj tasks0 \<noteq> None"
    using sim_loop_total[of adj "(0, ts, [])"] by (auto simp: simulateMigration_def)
qed

theorem sim_loop_returns_witness:
  "select_moves (input_bandwidth 2 [(1, 2, 1, 0)])
     [\<lparr>task_id = 1, start_node = 1, demand = 1, end_node = 2, migration_cost = 0,
       path = [2], path_idx = 0, current_pos_node = 1, finished = False\<rparr>] = [] \<and>
   sim_loop (input_bandwidth 2 [(1, 2, 1, 0)])
     (0, [\<lparr>task_id = 1, start_node = 1, demand = 1, end_node = 2, migration_cost = 0,
           path = [2], path_idx = 0, current_pos_node = 1, finished = False\<rparr>], [])
   = Some (1, [\<lparr>task_id = 1, start_node = 1, demand = 1, end_node = 2, migration_cost = 0,
           path = [2], path_idx = 0, current_pos_node = 1, finished = False\<rparr>], [])"
proof -
  let ?adj = "input_bandwidth 2 [(1, 2, 1, 0)]"
  let ?t = "\<lparr>task_id = 1, start_node = 1, demand = 1, end_node = 2, migration_cost = 0,
       path = [2], path_idx = 0, current_pos_node = 1, finished = False\<rparr>"
  have bw: "?adj 1 2 = 0" by code_simp
  have blocked: "\<forall>i<length [?t]. \<not> finished ([?t] ! i) \<longrightarrow>
      ?adj (current_pos_node ([?t] ! i)) (path ([?t] ! i) ! path_idx ([?t] ! i)) \<le> 0"
    using bw by simp
  note t = sim_loop_returns[of ?adj 0 "[?t]" "[]"]
  have s: "select_moves ?adj [?t] = []" using t blocked by blast
  have "\<not> (\<forall>x\<in>set [?t]. finished x)" by simp
  then have "sim_loop ?adj (0, [?t], []) = Some (0 + 1, [?t], [])" using t s by blast
  then show ?thesis using s by simp
qed

text \<open>
  A link of bandwidth 0 between nodes 1 and 2 and a task to move from 1 to 2: the
  simulation returns after step 1 with the task unfinished and an empty log. With
  bandwidth 1 it returns after step 1 as well, with the task finished and one log entry.
  The result has no component that says which of the two happened.
\<close>

theorem stall_is_silent_counterexample:
  "simulateMigration (snd (routing 2 [(1, 2, 1, 0)])) (input_bandwidth 2 [(1, 2, 1, 0)])
     [(read_task (1, 1, 1))\<lparr>end_node := 2\<rparr>]
   = Some (1, [\<lparr>task_id = 1, start_node = 1, demand = 1, end_node = 2, migration_cost = 0,
                path = [2], path_idx = 0, current_pos_node = 1, finished = False\<rparr>], []) \<and>
   simulateMigration (snd (routing 2 [(1, 2, 1, 1)])) (input_bandwidth 2 [(1, 2, 1, 1)])
     [(read_task (1, 1, 1))\<lparr>end_node := 2\<rparr>]
   = Some (1, [\<lparr>task_id = 1, start_node = 1, demand = 1, end_node = 2, migration_cost = 0,
                path = [2], path_idx = 1, current_pos_node = 2, finished = True\<rparr>],
           [\<lparr>log_time = 1, log_task_id = 1, log_from = 1, log_to = 2\<rparr>])"
  by code_simp

section \<open>Crossings per link and time step\<close>

lemma crossings_append:
  "crossings (xs @ ys) t a b = crossings xs t a b + crossings ys t a b"
  by (simp add: crossings_def)

lemma crossings_old:
  assumes "\<forall>e\<in>set logs. log_time e \<le> tm"
  shows "crossings logs (tm + 1) a b = 0"
  using assms by (auto simp: crossings_def filter_empty_conv)

lemma crossings_new:
  "crossings (map (\<lambda>i. move_entry tm (tasks ! i)) moved) t a b =
     (if t = tm then length (filter (crosses tasks a b) moved) else 0)"
proof -
  have "(\<lambda>e. log_time e = t \<and>
          ((log_from e = a \<and> log_to e = b) \<or> (log_from e = b \<and> log_to e = a)))
        \<circ> (\<lambda>i. move_entry tm (tasks ! i))
      = (\<lambda>i. tm = t \<and> crosses tasks a b i)"
    by (simp add: fun_eq_iff move_entry_def crosses_def)
  then have "crossings (map (\<lambda>i. move_entry tm (tasks ! i)) moved) t a b
      = length (filter (\<lambda>i. tm = t \<and> crosses tasks a b i) moved)"
    by (simp add: crossings_def filter_map)
  then show ?thesis by (cases "t = tm") auto
qed

lemma crossings_step:
  assumes sym: "\<forall>a b. adj a b = adj b a"
    and old: "\<forall>e\<in>set logs. log_time e \<le> tm"
    and bound: "\<forall>t a b. int (crossings logs t a b) \<le> max 0 (adj a b)"
  shows "(\<forall>e\<in>set (snd (fold (move_task (tm + 1)) (select_moves adj tasks) (tasks, logs))).
            log_time e \<le> tm + 1) \<and>
         (\<forall>t a b. int (crossings (snd (fold (move_task (tm + 1)) (select_moves adj tasks)
                                          (tasks, logs))) t a b) \<le> max 0 (adj a b))"
proof -
  let ?moved = "select_moves adj tasks"
  let ?new = "map (\<lambda>i. move_entry (tm + 1) (tasks ! i)) ?moved"
  have logs': "snd (fold (move_task (tm + 1)) ?moved (tasks, logs)) = logs @ ?new"
    using fold_move_task[where moved="?moved" and tasks=tasks and tm="tm + 1" and logs=logs]
      select_moves_props[of adj tasks] by blast
  have times: "\<forall>e\<in>set (logs @ ?new). log_time e \<le> tm + 1"
    using old by (auto simp: move_entry_def)
  have "int (crossings (logs @ ?new) t a b) \<le> max 0 (adj a b)" for t a b
  proof (cases "t = tm + 1")
    case True
    have "crossings (logs @ ?new) t a b = length (filter (crosses tasks a b) ?moved)"
      using crossings_old[OF old, of a b] True by (simp add: crossings_append crossings_new)
    then show ?thesis using select_moves_count[OF sym, of tasks a b] by simp
  next
    case False
    then have "crossings (logs @ ?new) t a b = crossings logs t a b"
      by (simp add: crossings_append crossings_new)
    then show ?thesis using bound by simp
  qed
  then show ?thesis using times unfolding logs' by blast
qed

lemma fold_read_link_sym:
  fixes adj :: "int matrix"
  assumes "\<forall>a b. adj a b = adj b a"
  shows "\<forall>a b. fst (fold read_link links (adj, d)) a b = fst (fold read_link links (adj, d)) b a"
  using assms
proof (induction links arbitrary: adj d)
  case Nil
  then show ?case by simp
next
  case (Cons l links)
  obtain u v c bw where l: "l = (u, v, c, bw)" by (cases l) auto
  define adj' where "adj' = upd2 (upd2 adj v u bw) u v bw"
  define d' where "d' = (if c < d u v then upd2 (upd2 d u v c) v u c else d)"
  have step: "read_link l (adj, d) = (adj', d')"
    by (simp add: l read_link_def d'_def adj'_def)
  have sym: "adj' a b = adj' b a" for a b
  proof -
    have "adj a b = adj b a" using Cons.prems by blast
    then show ?thesis
      unfolding adj'_def using sym_upd[where d=adj and u=v and v=u and c=bw and x=a and y=b]
      by simp
  qed
  show ?case using Cons.IH[of adj' d'] sym step by simp
qed

lemma input_bandwidth_sym: "input_bandwidth n links a b = input_bandwidth n links b a"
  using fold_read_link_sym[of "init_adj_bandwidth n" links "init_dist n"]
  by (simp add: input_bandwidth_def read_links_def init_adj_bandwidth_def)

text \<open>
  Claim C6, amended. In the log of the simulation, for every time step and every pair of
  nodes, the number of entries of that step that cross between the two nodes, in either
  direction, is at most the bandwidth of their link when that is not negative, and is 0
  when it is negative (the bandwidth of a pair without a link in the input is 0).
\<close>

theorem link_crossings_bounded:
  assumes run: "simulateMigration nh (input_bandwidth n links) tasks = Some (steps, tasks', logs)"
  shows "int (crossings logs t a b) \<le> max 0 (input_bandwidth n links a b)"
proof -
  let ?adj = "input_bandwidth n links"
  have sym: "\<forall>a b. ?adj a b = ?adj b a" using input_bandwidth_sym by blast
  obtain ts where run': "sim_loop ?adj (0, ts, []) = Some (steps, tasks', logs)"
    using run by (auto simp: simulateMigration_def split: option.splits)
  define I where "I = (\<lambda>(tm :: nat, tasks :: Task list, logs).
      (\<forall>e\<in>set logs. log_time e \<le> tm) \<and>
      (\<forall>t a b. int (crossings logs t a b) \<le> max 0 (?adj a b)))"
  have I0: "I (0, ts, [])" by (simp add: I_def crossings_def)
  have Istep: "I (tm + 1, fold (move_task (tm + 1)) (select_moves ?adj tasks) (tasks, logs))"
    if "I (tm, tasks, logs)" for tm tasks logs
  proof -
    obtain tasks1 logs1 where f: "fold (move_task (tm + 1)) (select_moves ?adj tasks) (tasks, logs)
        = (tasks1, logs1)"
      by (cases "fold (move_task (tm + 1)) (select_moves ?adj tasks) (tasks, logs)")
    show ?thesis
      using crossings_step[OF sym, of logs tm tasks] that f by (simp add: I_def)
  qed
  have Istall: "I (tm + 1, tasks, logs)" if "I (tm, tasks, logs)" for tm tasks logs
    using that by (auto simp: I_def)
  obtain r where r: "sim_loop ?adj (0, ts, []) = Some r" "I r"
    using sim_loop_rule[of I 0 ts "[]" ?adj, OF I0] Istep Istall by blast
  then have "I (steps, tasks', logs)" using run' by simp
  then show ?thesis by (simp add: I_def)
qed

theorem link_crossings_bounded_witness:
  "crossings
     [\<lparr>log_time = 1, log_task_id = 1, log_from = 1, log_to = 2\<rparr>,
      \<lparr>log_time = 2, log_task_id = 2, log_from = 2, log_to = 1\<rparr>] 1 1 2 = 1 \<and>
   crossings
     [\<lparr>log_time = 1, log_task_id = 1, log_from = 1, log_to = 2\<rparr>,
      \<lparr>log_time = 2, log_task_id = 2, log_from = 2, log_to = 1\<rparr>] 2 1 2 = 1 \<and>
   input_bandwidth 2 [(1, 2, 1, 1)] 1 2 = 1 \<and>
   int (crossings
     [\<lparr>log_time = 1, log_task_id = 1, log_from = 1, log_to = 2\<rparr>,
      \<lparr>log_time = 2, log_task_id = 2, log_from = 2, log_to = 1\<rparr>] 1 1 2)
     \<le> input_bandwidth 2 [(1, 2, 1, 1)] 1 2"
proof -
  let ?links = "[(1, 2, 1, 1)] :: link list"
  let ?logs = "[\<lparr>log_time = 1, log_task_id = 1, log_from = 1, log_to = 2\<rparr>,
      \<lparr>log_time = 2, log_task_id = 2, log_from = 2, log_to = 1\<rparr>]"
  have run: "simulateMigration (snd (routing 2 ?links)) (input_bandwidth 2 ?links)
      [(read_task (1, 1, 1))\<lparr>end_node := 2\<rparr>, (read_task (2, 2, 1))\<lparr>end_node := 1\<rparr>,
       read_task (3, 2, 4)]
    = Some (2, [\<lparr>task_id = 1, start_node = 1, demand = 1, end_node = 2,
          migration_cost = 0, path = [2], path_idx = 1,
          current_pos_node = 2, finished = True\<rparr>,
       \<lparr>task_id = 2, start_node = 2, demand = 1, end_node = 1,
          migration_cost = 0, path = [1], path_idx = 1,
          current_pos_node = 1, finished = True\<rparr>,
       \<lparr>task_id = 3, start_node = 2, demand = 4, end_node = 2,
          migration_cost = 0, path = [], path_idx = 0, current_pos_node = 2,
          finished = True\<rparr>], ?logs)"
    by code_simp
  have v: "crossings ?logs 1 1 2 = 1" "crossings ?logs 2 1 2 = 1"
    "input_bandwidth 2 ?links 1 2 = 1"
    by code_simp+
  from link_crossings_bounded[OF run, of 1 1 2] v show ?thesis by simp
qed

text \<open>
  \<^verbatim>\<open>readInput\<close> takes any bandwidth. With the single link 1-2 of bandwidth \<open>-1\<close> and one
  task to move from node 1 to node 2, the simulation stops at its first step with an
  empty log: the link is crossed 0 times, which is more than its bandwidth.
\<close>

theorem negative_bandwidth_counterexample:
  "map_option (\<lambda>(steps, tasks, logs). (steps, logs))
     (simulateMigration (snd (routing 2 [(1, 2, 1, - 1)])) (input_bandwidth 2 [(1, 2, 1, - 1)])
        [(read_task (1, 1, 1))\<lparr>end_node := 2\<rparr>])
     = Some (1, []) \<and>
   input_bandwidth 2 [(1, 2, 1, - 1)] 1 2 = - 1 \<and>
   input_bandwidth 2 [(1, 2, 1, - 1)] 1 2 < int (crossings [] 1 1 2)"
  by code_simp

section \<open>The simulation reads inside the paths\<close>

lemma follow_hops_longer:
  assumes "follow_hops nh e c acc = Some r" and "c \<noteq> e"
  shows "length acc < length r"
proof -
  have "follow_hops nh e (nh c e) (acc @ [nh c e]) = Some r"
    using assms by (subst (asm) follow_hops.simps) simp
  from follow_hops_appends[OF this] obtain p where "r = (acc @ [nh c e]) @ p" by blast
  then show ?thesis by simp
qed

lemma prepare_task_in_range:
  assumes "prepare_task nh t = Some t'"
  shows "finished t' \<or> path_idx t' < length (path t')"
proof (cases "start_node t = end_node t")
  case True
  then show ?thesis using assms by (auto simp: prepare_task_def)
next
  case False
  then obtain r where r: "follow_hops nh (end_node t) (start_node t) (path t) = Some r"
    and t': "t' = t\<lparr>path := r, path_idx := 0, current_pos_node := start_node t, finished := False\<rparr>"
    using assms by (auto simp: prepare_task_def reconstructPath_def)
  have "0 < length r" using follow_hops_longer[OF r False] by linarith
  then show ?thesis by (simp add: t')
qed

lemma prepare_tasks_in_range:
  assumes "prepare_tasks nh tasks = Some ts"
  shows "waiting_in_range ts"
  using assms
proof (induction tasks arbitrary: ts)
  case Nil
  then show ?case by (simp add: waiting_in_range_def)
next
  case (Cons t tasks)
  then obtain t' ts' where p: "prepare_task nh t = Some t'" "prepare_tasks nh tasks = Some ts'"
    "ts = t' # ts'"
    by (auto split: option.splits)
  show ?case
    using prepare_task_in_range[OF p(1)] Cons.IH[OF p(2)] by (simp add: p(3) waiting_in_range_def)
qed

lemma advance_in_range: "finished (advance t) \<or> path_idx (advance t) < length (path (advance t))"
  by (simp add: advance_def Let_def)

lemma fold_move_task_in_range:
  assumes "waiting_in_range tasks"
  shows "waiting_in_range (fst (fold (move_task tm) moved (tasks, logs)))"
  using assms
proof (induction moved arbitrary: tasks logs)
  case Nil
  then show ?case by simp
next
  case (Cons idx moved)
  have "waiting_in_range (tasks[idx := advance (tasks ! idx)])"
    using Cons.prems advance_in_range[of "tasks ! idx"]
      set_update_subset_insert[of tasks idx "advance (tasks ! idx)"]
    unfolding waiting_in_range_def by blast
  then show ?case using Cons.IH by (simp add: move_task_eq)
qed

text \<open>
  From the tasks as \<^verbatim>\<open>simulateMigration\<close> prepares them, every state of the loop keeps
  each unfinished task's index inside its path, so the reads \<^verbatim>\<open>t.path[t.path_idx]\<close> of the
  source are in range; the loop returns in such a state.
\<close>

lemma simulation_in_range:
  assumes "prepare_tasks nh tasks = Some ts"
  shows "\<exists>tm ts' logs. sim_loop adj (0, ts, []) = Some (tm, ts', logs) \<and> waiting_in_range ts'"
proof -
  define I where "I = (\<lambda>(tm :: nat, tasks :: Task list, logs :: LogEntry list). waiting_in_range tasks)"
  have I0: "I (0, ts, [])" using prepare_tasks_in_range[OF assms] by (simp add: I_def)
  have Istep: "I (tm + 1, fold (move_task (tm + 1)) (select_moves adj tasks) (tasks, logs))"
    if "I (tm, tasks, logs)" for tm tasks logs
    using that fold_move_task_in_range[of tasks "tm + 1" "select_moves adj tasks" logs]
    by (simp add: I_def case_prod_beta)
  have Istall: "I (tm + 1, tasks, logs)" if "I (tm, tasks, logs)" for tm tasks logs
    using that by (simp add: I_def)
  obtain r where r: "sim_loop adj (0, ts, []) = Some r" "I r"
    using sim_loop_rule[of I 0 ts "[]" adj, OF I0] Istep Istall by blast
  obtain tm ts' logs where "r = (tm, ts', logs)" by (cases r) auto
  then show ?thesis using r by (auto simp: I_def)
qed

section \<open>The program returns\<close>

lemma prepare_tasks_total:
  assumes "\<forall>t\<in>set tasks. \<exists>t'. prepare_task nh t = Some t'"
  shows "\<exists>ts. prepare_tasks nh tasks = Some ts"
  using assms by (induction tasks) auto

text \<open>
  On an input whose link costs are not negative and whose tasks start on nodes of
  \<open>1..N\<close>, and when the optimizer iterates only if there is a task, \<^verbatim>\<open>main\<close> runs to its
  end: the optimizer never takes a remainder by 0, every path reconstruction reaches the
  end node of its task, and the simulation loop returns.
\<close>

lemma main_program_returns:
  assumes costs: "\<forall>(u, v, c, bw)\<in>set link_lines. 0 \<le> c"
    and starts: "\<forall>(tid, s, dem)\<in>set task_lines. s \<in> {1..n}"
    and draws: "draws = [] \<or> task_lines \<noteq> []"
  shows "\<exists>r. main_program n node_lines link_lines task_lines sort_fn draws = Some r"
proof -
  let ?D = "fst (routing n link_lines)"
  let ?nh = "snd (routing n link_lines)"
  let ?g = "solveAllocationGreedy n ?D sort_fn (read_nodes node_lines, read_tasks task_lines)"
  have le: "\<forall>a b. ?D a b \<le> INF_val" using routing_le by blast
  have n: "0 < n" if ne: "task_lines \<noteq> []"
  proof -
    obtain l where "l \<in> set task_lines" using ne by (cases task_lines) auto
    then show ?thesis using starts by (cases l) auto
  qed
  have len: "length (snd ?g) = length task_lines"
    using greedy_fold_static[of n ?D "sorted_indices sort_fn (read_tasks task_lines)"
        "reset_usage n (read_nodes node_lines)" "read_tasks task_lines"]
    by (simp add: solveAllocationGreedy_def read_tasks_def)
  have "draws = [] \<or> (snd ?g \<noteq> [] \<and> 0 < n)" using draws n len by auto
  then obtain nodes' tasks' where
    run: "optimizeAllocationSA n ?D draws ?g = Some (nodes', tasks')"
    by (cases ?g; cases "restore n ?D (sa_loop n ?D draws (sa_init ?D (fst ?g) (snd ?g)))")
       (auto simp: optimizeAllocationSA_def)
  let ?Q = "\<lambda>s e. s \<in> {1..n} \<and> e \<in> {1..n} \<and> ?D s e \<noteq> INF_val"
  have "?D s s \<noteq> INF_val" for s
    using routing_diag[of n link_lines s] by (simp add: INF_val_def)
  then have init: "ends_ok ?Q (read_tasks task_lines)"
    using starts by (auto simp: ends_ok_def read_tasks_def read_task_def)
  have ends: "ends_ok ?Q tasks'"
    using pipeline_ends[where Q="?Q", OF _ init run] by blast
  note w = input_dist_ok[OF costs, of n]
  have r': "floydWarshall n (input_dist n link_lines, init_next_hop n) = (?D, ?nh)"
    by (simp add: routing_def)
  note inv = floydWarshall_inv[OF w r']
  obtain R where R: "hop_ok n (input_dist n link_lines) R (?D, ?nh)" using inv(3) by blast
  have "\<exists>t'. prepare_task ?nh t = Some t'" if t: "t \<in> set tasks'" for t
  proof (cases "start_node t = end_node t")
    case True
    then show ?thesis by (simp add: prepare_task_def)
  next
    case False
    have q: "start_node t \<in> {1..n}" "end_node t \<in> {1..n}"
      "?D (start_node t) (end_node t) \<noteq> INF_val"
      using ends t by (auto simp: ends_ok_def)
    have fin: "?D (start_node t) (end_node t) < INF_val"
      using q(3) le[rule_format, of "start_node t" "end_node t"] by linarith
    obtain p where "\<forall>acc. follow_hops ?nh (end_node t) (start_node t) acc = Some (acc @ p)"
      using follow_hops_route[OF inv(1,2) R q(2) q(1) fin] by blast
    then have "follow_hops ?nh (end_node t) (start_node t) (path t) = Some (path t @ p)"
      by blast
    then show ?thesis using False by (simp add: prepare_task_def reconstructPath_def)
  qed
  then obtain ts where ts: "prepare_tasks ?nh tasks' = Some ts"
    using prepare_tasks_total[of tasks' ?nh] by blast
  obtain r where r: "sim_loop (input_bandwidth n link_lines) (0, ts, []) = Some r"
    using sim_loop_total by blast
  obtain tm ts' logs where "r = (tm, ts', logs)" by (cases r) auto
  then show ?thesis
    using run ts r by (simp add: main_program_def simulateMigration_def)
qed

text \<open>The worked example, run through \<^verbatim>\<open>main\<close>.\<close>

lemma main_program_example:
  "map_option (\<lambda>(nodes, tm, tasks, logs).
       (map (\<lambda>i. current_usage (nodes i)) [1, 2, 3], tm, map end_node tasks,
        map path tasks, map (\<lambda>l. (log_time l, log_task_id l, log_from l, log_to l)) logs))
     (main_program 3 [(1, 0), (2, 3), (3, 10)] ex_links [(1, 1, 3), (2, 2, 2)]
        insertion_sort ex_draws)
   = Some ([0, 2, 3], 1, [3, 2], [[3], []], [(1, 1, 1, 3)])"
  by code_simp

end
